theory Spec2Isabelle
  imports Main "HOL-Library.Word"
begin

unbundle bit_operations_syntax

section \<open>The filehandle core of unfs3: data model\<close>

text \<open>
  The development embeds \<^verbatim>\<open>fh.c\<close> and \<^verbatim>\<open>fh_cache.c\<close>. C objects are modelled as
  follows: \<^verbatim>\<open>uint32\<close> is a 32-bit word, \<^verbatim>\<open>unsigned char\<close> an 8-bit word, \<^verbatim>\<open>int\<close> a
  32-bit word read as two's complement, a C string a \<^typ>\<open>string\<close> without its
  terminator, a \<^verbatim>\<open>NULL\<close> return the value \<open>None\<close>. The
  file system is a parameter (\<open>host\<close> below) that stays fixed during one call. File-scope
  variables are the fields of the record \<open>globals\<close>, passed in and returned. A local
  variable that the C code reads before writing it is a parameter of the function that
  declares it, standing for the indeterminate contents of its storage.
\<close>

type_synonym uint32 = "32 word"
type_synonym uchar = "8 word"
type_synonym c_int = "32 word"

text \<open>
  The system types of \<^verbatim>\<open>struct stat\<close> and of the cache slot, at their width on LP64
  hosts: \<^verbatim>\<open>dev_t\<close> and \<^verbatim>\<open>ino_t\<close> are unsigned, \<^verbatim>\<open>time_t\<close> is signed, all of 64 bits. A
  host with 32-bit types is the case where the values stay below \<open>2 ^ 32\<close>.
\<close>

type_synonym dev_t = "64 word"
type_synonym ino_t = "64 word"
type_synonym time_t = "64 word"

text \<open>
  \<^verbatim>\<open>struct stat\<close>, reduced to the fields the filehandle code reads. The handle stores
  \<open>st_dev\<close> and \<open>st_ino\<close> truncated to 32 bits; the comparisons of the code read them at
  full width. \<open>st_gen\<close> is read only when the build has \<^verbatim>\<open>HAVE_STRUCT_STAT_ST_GEN\<close>.
\<close>

record stat =
  st_dev :: dev_t
  st_ino :: ino_t
  st_mode :: uint32
  st_gen :: uint32

text \<open>
  Modelled from the spec: the type \<^verbatim>\<open>unfs3_fh_t\<close> is declared in \<^verbatim>\<open>fh.h\<close>, which is not
  among the sources. The spec gives its fields and their packed layout: \<open>dev\<close>, \<open>ino\<close>
  and \<open>gen\<close> of 32 bits, \<open>len\<close> of 8 bits, then the array \<open>inos\<close> of \<open>FH_MAXLEN\<close> bytes.
  In a struct held in memory the list \<open>inos\<close> has \<open>FH_MAXLEN\<close> elements.
\<close>

record unfs3_fh =
  dev :: uint32
  ino :: uint32
  gen :: uint32
  len :: uchar
  inos :: "uchar list"

text \<open>
  Modelled from the spec: the macro \<^verbatim>\<open>FH_MINLEN\<close> of \<^verbatim>\<open>fh.h\<close>, the size of the fixed
  header of a handle, 13 bytes.
\<close>

definition FH_MINLEN :: nat where
  "FH_MINLEN = 13"

text \<open>
  Modelled from the spec: the macro \<^verbatim>\<open>FH_MAXLEN\<close> of \<^verbatim>\<open>fh.h\<close>, the size of the array
  \<open>inos\<close>, which the spec calls \<open>MAX_DEPTH\<close> and gives the reference value 64.
\<close>

definition FH_MAXLEN :: nat where
  "FH_MAXLEN = 64"

text \<open>
  An \<^verbatim>\<open>nfs_fh3\<close> is an XDR variable-length opaque: \<^verbatim>\<open>data_len\<close> is the length of the
  byte list, \<^verbatim>\<open>data_val\<close> the bytes.
\<close>

type_synonym nfs_fh3 = "uchar list"

definition le32 :: "uchar list \<Rightarrow> uint32" where
  "le32 bs = ucast (bs ! 0) OR push_bit 8 (ucast (bs ! 1)) OR
             push_bit 16 (ucast (bs ! 2)) OR push_bit 24 (ucast (bs ! 3))"

text \<open>
  The pointer cast \<^verbatim>\<open>(unfs3_fh_t *) fh.data.data_val\<close>: the struct seen through the
  bytes of a wire handle, in the little-endian layout the spec gives for the wire format.
  Its \<open>inos\<close> are the bytes from offset 13 to the end of the buffer. It is only used
  on buffers of at least \<open>FH_MINLEN\<close> bytes.
\<close>

definition fh_cast :: "nfs_fh3 \<Rightarrow> unfs3_fh" where
  "fh_cast b = \<lparr> dev = le32 (take 4 b), ino = le32 (take 4 (drop 4 b)),
                 gen = le32 (take 4 (drop 8 b)), len = b ! 12, inos = drop 13 b \<rparr>"

section \<open>Hash function for inode numbers\<close>

text \<open>
  \<^verbatim>\<open>#define FH_HASH(n) ((n + 3 * (n >> 8) + 5 * (n >> 16)) & 0xFF)\<close>. The macro is used
  on an \<^verbatim>\<open>ino_t\<close> (in \<^verbatim>\<open>fh_comp_raw\<close> and \<^verbatim>\<open>fh_rec\<close>) and on a \<^verbatim>\<open>uint32\<close> (in
  \<^verbatim>\<open>fh_extend\<close>); the arithmetic is that of the argument's type. The result is stored in,
  or compared with, an \<^verbatim>\<open>unsigned char\<close>.
\<close>

definition FH_HASH :: "'a::len word \<Rightarrow> uchar" where
  "FH_HASH n = ucast ((n + 3 * drop_bit 8 n + 5 * drop_bit 16 n) AND 0xFF)"

text \<open>
  The inode hash in the spec's words, on natural numbers:
  \<open>h(n) = (n + 3 (n >> 8) + 5 (n >> 16)) mod 256\<close>.
\<close>

definition spec_h :: "nat \<Rightarrow> nat" where
  "spec_h n = (n + 3 * drop_bit 8 n + 5 * drop_bit 16 n) mod 256"

section \<open>Filehandle composition functions\<close>

text \<open>
  \<^verbatim>\<open>fh_len\<close>: \<^verbatim>\<open>fh->len + sizeof(fh->len) + sizeof(fh->dev) + sizeof(fh->ino) +
  sizeof(fh->gen)\<close>, computed in \<^verbatim>\<open>size_t\<close> without overflow.
\<close>

definition fh_len :: "unfs3_fh \<Rightarrow> nat" where
  "fh_len fh = unat (len fh) + 1 + 4 + 4 + 4"

definition nfh_valid :: "nfs_fh3 \<Rightarrow> bool" where
  "nfh_valid fh =
     (if length fh < FH_MINLEN then False
      else if length fh \<noteq> fh_len (fh_cast fh) then False
      else True)"

definition fh_valid :: "unfs3_fh \<Rightarrow> bool" where
  "fh_valid fh = (dev fh \<noteq> 0 \<and> ino fh \<noteq> 0)"

definition invalid_fh :: unfs3_fh where
  "invalid_fh = \<lparr> dev = 0, ino = 0, gen = 0, len = 0, inos = replicate FH_MAXLEN 0 \<rparr>"

text \<open>
  A memory access outside the object it addresses. In C the behaviour is undefined; the
  model stops with this value instead.
\<close>

datatype fault = OutOfBounds

text \<open>
  \<^verbatim>\<open>fh_extend\<close>. \<open>new0\<close> is the content of the function-static \<^verbatim>\<open>new\<close> before the
  call; the returned struct is its content afterwards. \<^verbatim>\<open>memcpy(&new, fh, fh_len(fh))\<close>
  overwrites the header and the first \<open>len\<close> trail bytes and leaves the other trail
  bytes of \<^verbatim>\<open>new\<close> as they were.
\<close>

definition fh_extend ::
  "unfs3_fh \<Rightarrow> nfs_fh3 \<Rightarrow> uint32 \<Rightarrow> uint32 \<Rightarrow> uint32 \<Rightarrow> fault + unfs3_fh option" where
  "fh_extend new0 nfh d i g =
     (if length nfh < FH_MINLEN then Inl OutOfBounds
      else let fh = fh_cast nfh in
        if unat (len fh) = FH_MAXLEN then Inr None
        else if length nfh < fh_len fh \<or> FH_MINLEN + length (inos new0) < fh_len fh
          then Inl OutOfBounds
        else
          let new = fh \<lparr> inos := take (unat (len fh)) (inos fh) @ drop (unat (len fh)) (inos new0) \<rparr>;
              new = new \<lparr> dev := d \<rparr>;
              new = new \<lparr> ino := i \<rparr>;
              new = new \<lparr> gen := g \<rparr>
          in if length (inos new) \<le> unat (len new) then Inl OutOfBounds
             else
               let new = new \<lparr> inos := (inos new)[unat (len new) := FH_HASH i] \<rparr>;
                   new = new \<lparr> len := len new + 1 \<rparr>
               in Inr (Some new))"

text \<open>
  \<^verbatim>\<open>post_op_fh3\<close> is an XDR union discriminated by \<^verbatim>\<open>handle_follows\<close>; when a handle
  follows it carries \<^verbatim>\<open>data_len\<close> and the struct \<^verbatim>\<open>data_val\<close> points to.
\<close>

datatype post_op_fh3 = Handle_follows nat unfs3_fh | No_handle

definition handle_follows :: "post_op_fh3 \<Rightarrow> bool" where
  "handle_follows post = (case post of Handle_follows n fh \<Rightarrow> True | No_handle \<Rightarrow> False)"

definition fh_extend_post ::
  "unfs3_fh \<Rightarrow> nfs_fh3 \<Rightarrow> uint32 \<Rightarrow> uint32 \<Rightarrow> uint32 \<Rightarrow> fault + post_op_fh3" where
  "fh_extend_post new0 fh d i g =
     (case fh_extend new0 fh d i g of
        Inl f \<Rightarrow> Inl f
      | Inr (Some new) \<Rightarrow> Inr (Handle_follows (fh_len new) new)
      | Inr None \<Rightarrow> Inr No_handle)"


section \<open>The host: file system and build configuration\<close>

text \<open>
  What the code takes from outside the repository: the system calls, the configuration
  macros of \<^verbatim>\<open>config.h\<close> and \<^verbatim>\<open>NFS_MAXPATHLEN\<close> of \<^verbatim>\<open>nfs.h\<close> (neither header is among
  the sources, so the constants are parameters). \<open>sys_readdir\<close> is \<^verbatim>\<open>opendir\<close> followed
  by \<^verbatim>\<open>readdir\<close> until it returns \<^verbatim>\<open>NULL\<close>: the names in the order the host yields
  them, or \<open>None\<close> when \<^verbatim>\<open>opendir\<close> fails.
\<close>

record host =
  sys_lstat :: "string \<Rightarrow> stat option"
  sys_readdir :: "string \<Rightarrow> string list option"
  sys_open :: "string \<Rightarrow> int option"
  sys_ioctl_getversion :: "int \<Rightarrow> uint32 option"
  HAVE_STRUCT_STAT_ST_GEN :: bool
  HAVE_LINUX_EXT2_FS_H :: bool
  NFS_MAXPATHLEN :: nat

text \<open>\<^verbatim>\<open>lstat\<close> of the empty path fails (POSIX: \<^verbatim>\<open>ENOENT\<close>).\<close>

definition lstat :: "host \<Rightarrow> string \<Rightarrow> stat option" where
  "lstat h p = (if p = [] then None else sys_lstat h p)"

definition readdir :: "host \<Rightarrow> string \<Rightarrow> string list option" where
  "readdir h p = sys_readdir h p"

definition S_ISDIR :: "uint32 \<Rightarrow> bool" where
  "S_ISDIR m = (m AND 0xF000 = 0x4000)"

definition S_ISREG :: "uint32 \<Rightarrow> bool" where
  "S_ISREG m = (m AND 0xF000 = 0x8000)"

definition FD_NONE :: int where
  "FD_NONE = - 1"

section \<open>Inode generation number handling\<close>

definition get_gen :: "host \<Rightarrow> stat \<Rightarrow> int \<Rightarrow> string \<Rightarrow> uint32" where
  "get_gen h obuf fd p =
     (if HAVE_STRUCT_STAT_ST_GEN h then st_gen obuf
      else if HAVE_LINUX_EXT2_FS_H h then
        (if \<not> S_ISREG (st_mode obuf) \<and> \<not> S_ISDIR (st_mode obuf) then 0
         else if fd \<noteq> FD_NONE then
           (case sys_ioctl_getversion h fd of None \<Rightarrow> 0 | Some v \<Rightarrow> v)
         else
           (case sys_open h p of
              None \<Rightarrow> 0
            | Some newfd \<Rightarrow> (case sys_ioctl_getversion h newfd of None \<Rightarrow> 0 | Some v \<Rightarrow> v)))
      else ucast (st_ino obuf))"

section \<open>Composing a filehandle from a path\<close>

text \<open>
  The work buffer of \<^verbatim>\<open>fh_comp_raw\<close> is a character list in which the code plants and
  removes a terminator; \<open>cstr\<close> reads it as a C string, up to the first terminator.
  \<open>strchr w i c\<close> is \<^verbatim>\<open>strchr(w + i, c)\<close> as an index into \<open>w\<close>; the end of the list is
  the original terminator.
\<close>

definition NUL :: char where
  "NUL = CHR 0x00"

definition cstr :: "string \<Rightarrow> string" where
  "cstr w = takeWhile (\<lambda>c. c \<noteq> NUL) w"

function strchr :: "string \<Rightarrow> nat \<Rightarrow> char \<Rightarrow> nat option" where
  "strchr w i c =
     (if length w \<le> i then None
      else if w ! i = c then Some i
      else if w ! i = NUL then None
      else strchr w (Suc i) c)"
  by pat_completeness auto
termination
  by (relation "measure (\<lambda>(w, i, c). length w - i)") auto

declare strchr.simps [simp del]

text \<open>
  The \<^verbatim>\<open>do ... while (last && pos < FH_MAXLEN)\<close> loop with the two exits after it.
  \<open>lasti\<close> is the index \<^verbatim>\<open>last - work\<close>.
\<close>

function fh_comp_loop :: "host \<Rightarrow> string \<Rightarrow> nat \<Rightarrow> nat \<Rightarrow> unfs3_fh \<Rightarrow> unfs3_fh" where
  "fh_comp_loop h work lasti pos fh =
     (let work1 = work[lasti := CHR ''/''];
          lasti' = strchr work1 (lasti + 1) (CHR ''/'');
          work2 = (case lasti' of None \<Rightarrow> work1 | Some l \<Rightarrow> work1[l := NUL])
      in case lstat h (cstr work2) of
           None \<Rightarrow> invalid_fh
         | Some buf \<Rightarrow>
             if lasti' \<noteq> None \<and> pos + 1 < FH_MAXLEN
             then fh_comp_loop h work2 (the lasti') (pos + 1)
                    (fh \<lparr> inos := (inos fh)[pos := FH_HASH (st_ino buf)] \<rparr>)
             else if lasti' \<noteq> None then invalid_fh
             else fh \<lparr> inos := (inos fh)[pos := FH_HASH (st_ino buf)], len := of_nat (pos + 1) \<rparr>)"
  by pat_completeness auto
termination
  by (relation "measure (\<lambda>(h, work, lasti, pos, fh). FH_MAXLEN - pos)") auto

declare fh_comp_loop.simps [simp del]

text \<open>
  \<open>ufh\<close> is the indeterminate initial content of the local \<^verbatim>\<open>unfs3_fh_t fh\<close>, which the
  code declares without an initialiser. As a struct in memory it has \<open>FH_MAXLEN\<close> trail
  bytes, so the index \<open>pos < FH_MAXLEN\<close> of the loop is in range. The assignments to
  \<^verbatim>\<open>fh.dev\<close> and \<^verbatim>\<open>fh.ino\<close> truncate. \<^verbatim>\<open>strcpy(work, path)\<close> copies the path and its
  terminator into \<^verbatim>\<open>char work[NFS_MAXPATHLEN]\<close> without a check: a path of
  \<open>NFS_MAXPATHLEN\<close> or more characters writes past the buffer.
\<close>

definition fh_comp_raw :: "host \<Rightarrow> unfs3_fh \<Rightarrow> string \<Rightarrow> int \<Rightarrow> fault + unfs3_fh" where
  "fh_comp_raw h ufh p need_dir =
     (case lstat h p of
        None \<Rightarrow> Inr invalid_fh
      | Some buf \<Rightarrow>
          if need_dir \<noteq> 0 \<and> \<not> S_ISDIR (st_mode buf) then Inr invalid_fh
          else
            let fh = ufh \<lparr> dev := ucast (st_dev buf), ino := ucast (st_ino buf),
                           gen := get_gen h buf FD_NONE p \<rparr>
            in if p = ''/'' then Inr fh
               else if NFS_MAXPATHLEN h \<le> length p then Inl OutOfBounds
               else Inr (fh_comp_loop h p 0 0 fh))"

section \<open>Resolving a filehandle into a path\<close>

text \<open>
  \<^verbatim>\<open>fh_rec\<close> and its \<^verbatim>\<open>while (entry)\<close> loop. \<open>pos\<close> is the C \<^verbatim>\<open>int\<close>. \<open>ubuf\<close> is the
  indeterminate initial content of the local \<^verbatim>\<open>struct stat buf\<close>; \<open>buf\<close> is carried
  through the loop because a failed \<^verbatim>\<open>lstat\<close> overwrites only two of its fields. On
  success the result is the string written to \<^verbatim>\<open>result\<close> and the stat stored in
  \<^verbatim>\<open>st_cache\<close>; \<open>None\<close> is the return value \<^verbatim>\<open>FALSE\<close>. \<^verbatim>\<open>lead + 1\<close> is \<open>tl lead\<close>:
  \<open>lead\<close> is never empty. The comparison with the handle promotes \<^verbatim>\<open>fh->dev\<close> and
  \<^verbatim>\<open>fh->ino\<close> to the width of \<^verbatim>\<open>st_dev\<close> and \<^verbatim>\<open>st_ino\<close>.
\<close>

function fh_rec :: "host \<Rightarrow> stat \<Rightarrow> unfs3_fh \<Rightarrow> 32 word \<Rightarrow> string \<Rightarrow> (string \<times> stat) option"
  and fh_rec_entries ::
    "host \<Rightarrow> stat \<Rightarrow> unfs3_fh \<Rightarrow> 32 word \<Rightarrow> string \<Rightarrow> stat \<Rightarrow> string list \<Rightarrow> (string \<times> stat) option"
where
  "fh_rec h ubuf fh pos lead =
     (if pos = ucast (len fh) then None
      else case readdir h lead of
             None \<Rightarrow> None
           | Some entries \<Rightarrow> fh_rec_entries h ubuf fh pos lead ubuf entries)"
| "fh_rec_entries h ubuf fh pos lead buf [] = None"
| "fh_rec_entries h ubuf fh pos lead buf (d_name # rest) =
     (if length lead + length d_name + 1 < NFS_MAXPATHLEN h then
        let obj = lead @ ''/'' @ d_name;
            buf1 = (case lstat h obj of
                      None \<Rightarrow> buf \<lparr> st_dev := 0, st_ino := 0 \<rparr>
                    | Some b \<Rightarrow> b)
        in if st_dev buf1 = ucast (dev fh) \<and> st_ino buf1 = ucast (ino fh)
           then Some (tl lead @ ''/'' @ d_name, buf1)
           else if d_name \<noteq> ''..'' \<and> d_name \<noteq> ''.'' \<and>
                   FH_HASH (st_ino buf1) = inos fh ! unat pos
           then (case fh_rec h ubuf fh (pos + 1) obj of
                   Some r \<Rightarrow> Some r
                 | None \<Rightarrow> fh_rec_entries h ubuf fh pos lead buf1 rest)
           else fh_rec_entries h ubuf fh pos lead buf1 rest
      else fh_rec_entries h ubuf fh pos lead buf rest)"
  by pat_completeness auto

termination
proof (relation "measures
    [\<lambda>x. case x of
            Inl (h, ubuf, fh, pos, lead) \<Rightarrow> unat (ucast (len fh) - pos)
          | Inr (h, ubuf, fh, pos, lead, buf, es) \<Rightarrow> unat (ucast (len fh) - pos - 1),
     \<lambda>x. case x of Inl a \<Rightarrow> 0 | Inr b \<Rightarrow> 1,
     \<lambda>x. case x of Inl a \<Rightarrow> 0 | Inr (h, ubuf, fh, pos, lead, buf, es) \<Rightarrow> length es]",
    goal_cases)
  case 1
  show ?case by simp
next
  case (2 h ubuf fh pos lead es)
  then have "ucast (len fh) - pos \<noteq> 0" by simp
  then show ?case by (simp add: measure_unat)
next
  case 3
  show ?case by (simp add: diff_diff_eq add.commute)
next
  case 4
  show ?case by simp
next
  case 5
  show ?case by simp
next
  case 6
  show ?case by simp
qed

declare fh_rec.simps [simp del]
declare fh_rec_entries.simps [simp del]

section \<open>File-scope state\<close>

text \<open>
  A slot of the path cache. \<^verbatim>\<open>use\<close> is a \<^verbatim>\<open>time_t\<close>, read as a signed number with
  \<open>sint\<close>.
\<close>

record unfs3_cache_t =
  c_dev :: uint32
  c_ino :: uint32
  c_path :: string
  c_use :: time_t

definition CACHE_ENTRIES :: nat where
  "CACHE_ENTRIES = 4096"

text \<open>
  The file-scope variables. The counters \<^verbatim>\<open>fh_cache_use\<close>, \<^verbatim>\<open>fh_cache_hit\<close> and
  \<^verbatim>\<open>fh_cache_time\<close> are C \<^verbatim>\<open>int\<close>s that the code only increments; the increment wraps
  around at \<^verbatim>\<open>INT_MAX\<close>, as the hardware does (the C standard leaves the overflow
  undefined). \<^verbatim>\<open>fh_cache_max\<close> is an \<^verbatim>\<open>int\<close> that stays between 0 and
  \<open>CACHE_ENTRIES - 1\<close>.
\<close>

record globals =
  st_cache_valid :: bool
  st_cache :: stat
  fh_cache :: "unfs3_cache_t list"
  fh_cache_max :: nat
  fh_cache_use :: c_int
  fh_cache_hit :: c_int
  fh_cache_time :: c_int

text \<open>
  The array \<^verbatim>\<open>fh_cache\<close> has \<open>CACHE_ENTRIES\<close> slots and \<^verbatim>\<open>fh_cache_max\<close> stays an index
  into it: what the declarations and \<^verbatim>\<open>fh_cache_lru\<close> maintain.
\<close>

definition globals_ok :: "globals \<Rightarrow> bool" where
  "globals_ok g = (length (fh_cache g) = CACHE_ENTRIES \<and> fh_cache_max g < CACHE_ENTRIES)"

text \<open>
  \<^verbatim>\<open>fh_decomp_raw\<close>. The argument is the pointer \<^verbatim>\<open>fh\<close>, \<open>None\<close> when it is \<^verbatim>\<open>NULL\<close>;
  the result is the string the returned pointer addresses.
\<close>

definition fh_decomp_raw ::
  "host \<Rightarrow> stat \<Rightarrow> unfs3_fh option \<Rightarrow> globals \<Rightarrow> string option \<times> globals" where
  "fh_decomp_raw h ubuf fhp g =
     (case fhp of
        None \<Rightarrow> (None, g)
      | Some fh \<Rightarrow>
          if len fh = 0 then (Some ''/'', g)
          else (case fh_rec h ubuf fh 0 ''/'' of
                  Some (result, buf) \<Rightarrow> (Some result, g \<lparr> st_cache_valid := True, st_cache := buf \<rparr>)
                | None \<Rightarrow> (None, g)))"

text \<open>
  \<^verbatim>\<open>fh_extend_type\<close>; \<open>new0\<close> as in \<open>fh_extend\<close>. When the check fails the reply is
  built with \<^verbatim>\<open>handle_follows = FALSE\<close>.
\<close>

definition fh_extend_type ::
  "host \<Rightarrow> unfs3_fh \<Rightarrow> nfs_fh3 \<Rightarrow> string \<Rightarrow> uint32 \<Rightarrow> globals \<Rightarrow> (fault + post_op_fh3) \<times> globals" where
  "fh_extend_type h new0 fh p type g =
     (case lstat h p of
        None \<Rightarrow> (Inr No_handle, g \<lparr> st_cache_valid := False \<rparr>)
      | Some buf \<Rightarrow>
          if st_mode buf AND type \<noteq> type then (Inr No_handle, g \<lparr> st_cache_valid := False \<rparr>)
          else (fh_extend_post new0 fh (ucast (st_dev buf)) (ucast (st_ino buf))
                  (get_gen h buf FD_NONE p),
                g \<lparr> st_cache_valid := True, st_cache := buf \<rparr>))"

section \<open>The filehandle cache\<close>

text \<open>
  \<^verbatim>\<open>return ++fh_cache_time\<close>, on the 32-bit \<^verbatim>\<open>int\<close>. The addition is that of a 32-bit
  word: after \<open>2 ^ 31 - 1\<close> the counter wraps to \<open>- 2 ^ 31\<close>, as two's-complement
  hardware does where C leaves the overflow undefined.
\<close>

definition fh_cache_next :: "globals \<Rightarrow> c_int \<times> globals" where
  "fh_cache_next g = (fh_cache_time g + 1, g \<lparr> fh_cache_time := fh_cache_time g + 1 \<rparr>)"

definition empty_slot :: unfs3_cache_t where
  "empty_slot = \<lparr> c_dev = 0, c_ino = 0, c_path = [], c_use = 0 \<rparr>"

definition fh_cache_init :: "globals \<Rightarrow> globals" where
  "fh_cache_init g = g \<lparr> fh_cache := replicate CACHE_ENTRIES empty_slot \<rparr>"

text \<open>
  The \<^verbatim>\<open>for\<close> loop of \<^verbatim>\<open>fh_cache_lru\<close>, from index \<open>i\<close> on. \<^verbatim>\<open>fh_cache[i].use < best\<close>
  compares the signed values of a \<^verbatim>\<open>time_t\<close> and an \<^verbatim>\<open>int\<close>; \<^verbatim>\<open>best = fh_cache[i].use\<close>
  truncates to \<^verbatim>\<open>int\<close>.
\<close>

function fh_cache_lru_scan :: "unfs3_cache_t list \<Rightarrow> nat \<Rightarrow> c_int \<Rightarrow> nat \<Rightarrow> nat" where
  "fh_cache_lru_scan c i best best_idx =
     (if i < CACHE_ENTRIES then
        (if c_use (c ! i) = 0 then i
         else if sint (c_use (c ! i)) < sint best
           then fh_cache_lru_scan c (i + 1) (ucast (c_use (c ! i))) i
         else fh_cache_lru_scan c (i + 1) best best_idx)
      else best_idx)"
  by pat_completeness auto
termination
  by (relation "measure (\<lambda>(c, i, best, best_idx). CACHE_ENTRIES - i)") auto

declare fh_cache_lru_scan.simps [simp del]

definition fh_cache_lru :: "globals \<Rightarrow> nat \<times> globals" where
  "fh_cache_lru g =
     (if fh_cache_max g < CACHE_ENTRIES - 1
      then (fh_cache_max g, g \<lparr> fh_cache_max := fh_cache_max g + 1 \<rparr>)
      else (fh_cache_lru_scan (fh_cache g) 0 (- 1) 0, g))"

text \<open>\<^verbatim>\<open>path[0] = 0\<close> makes the stored string empty.\<close>

definition fh_cache_inval :: "nat \<Rightarrow> globals \<Rightarrow> globals" where
  "fh_cache_inval idx g =
     g \<lparr> fh_cache := (fh_cache g)[idx := (fh_cache g ! idx)
            \<lparr> c_dev := 0, c_ino := 0, c_use := 0, c_path := [] \<rparr>] \<rparr>"

text \<open>
  The \<^verbatim>\<open>for\<close> loop of \<^verbatim>\<open>fh_cache_index\<close>, from index \<open>k\<close> on; \<open>None\<close> is the result
  \<^verbatim>\<open>-1\<close>.
\<close>

function fh_cache_index_scan :: "globals \<Rightarrow> uint32 \<Rightarrow> uint32 \<Rightarrow> nat \<Rightarrow> nat option" where
  "fh_cache_index_scan g d i k =
     (if k < fh_cache_max g + 1 then
        (if c_dev (fh_cache g ! k) = d \<and> c_ino (fh_cache g ! k) = i then Some k
         else fh_cache_index_scan g d i (k + 1))
      else None)"
  by pat_completeness auto
termination
  by (relation "measure (\<lambda>(g, d, i, k). fh_cache_max g + 1 - k)") auto

declare fh_cache_index_scan.simps [simp del]

definition fh_cache_index :: "globals \<Rightarrow> uint32 \<Rightarrow> uint32 \<Rightarrow> nat option" where
  "fh_cache_index g d i = fh_cache_index_scan g d i 0"

text \<open>
  \<^verbatim>\<open>fh_cache_add\<close>. The stamp is the \<^verbatim>\<open>int\<close> of \<open>fh_cache_next\<close> converted to \<^verbatim>\<open>time_t\<close>.
  The last statement, \<^verbatim>\<open>strcpy(fh_cache[idx].path, path)\<close>, copies into
  \<^verbatim>\<open>char path[NFS_MAXPATHLEN]\<close> without a check.
\<close>

definition fh_cache_add :: "host \<Rightarrow> uint32 \<Rightarrow> uint32 \<Rightarrow> string \<Rightarrow> globals \<Rightarrow> fault + globals" where
  "fh_cache_add h d i p g =
     (let (idx, g1) = (case fh_cache_index g d i of
                         None \<Rightarrow> fh_cache_lru g
                       | Some k \<Rightarrow> (k, g));
          g2 = fh_cache_inval idx g1;
          (t, g3) = fh_cache_next g2
      in if NFS_MAXPATHLEN h \<le> length p then Inl OutOfBounds
         else Inr (g3 \<lparr> fh_cache := (fh_cache g3)[idx := (fh_cache g3 ! idx)
                \<lparr> c_dev := d, c_ino := i, c_use := scast t, c_path := p \<rparr>] \<rparr>))"

definition fh_cache_lookup :: "host \<Rightarrow> uint32 \<Rightarrow> uint32 \<Rightarrow> globals \<Rightarrow> string option \<times> globals" where
  "fh_cache_lookup h d i g =
     (case fh_cache_index g d i of
        Some k \<Rightarrow>
          (case lstat h (c_path (fh_cache g ! k)) of
             None \<Rightarrow> (None, fh_cache_inval k g)
           | Some buf \<Rightarrow>
               if st_dev buf = ucast d \<and> st_ino buf = ucast i then
                 (let (t, g1) = fh_cache_next g;
                      g2 = g1 \<lparr> fh_cache := (fh_cache g1)[k := (fh_cache g1 ! k) \<lparr> c_use := scast t \<rparr>] \<rparr>;
                      g3 = g2 \<lparr> st_cache_valid := True, st_cache := buf \<rparr>
                  in (Some (c_path (fh_cache g3 ! k)), g3))
               else (None, fh_cache_inval k g))
      | None \<Rightarrow> (None, g))"

text \<open>
  \<^verbatim>\<open>fh_decomp\<close>, the cache-using wrapper for \<^verbatim>\<open>fh_decomp_raw\<close>. When a step faults, the
  first component of the result says so and the second is the state before that step.
\<close>

definition fh_decomp ::
  "host \<Rightarrow> stat \<Rightarrow> nfs_fh3 \<Rightarrow> globals \<Rightarrow> (fault + string option) \<times> globals" where
  "fh_decomp h ubuf fh g =
     (if \<not> nfh_valid fh then (Inr None, g \<lparr> st_cache_valid := False \<rparr>)
      else
        let obj = fh_cast fh;
            (result, g1) = fh_cache_lookup h (dev obj) (ino obj) g;
            g2 = g1 \<lparr> fh_cache_use := fh_cache_use g1 + 1 \<rparr>
        in case result of
             None \<Rightarrow>
               (case fh_decomp_raw h ubuf (Some obj) g2 of
                  (Some r, g3) \<Rightarrow>
                    (case fh_cache_add h (dev obj) (ino obj) r g3 of
                       Inl f \<Rightarrow> (Inl f, g3)
                     | Inr g4 \<Rightarrow> (Inr (Some r), g4))
                | (None, g3) \<Rightarrow> (Inr None, g3 \<lparr> st_cache_valid := False \<rparr>))
           | Some r \<Rightarrow> (Inr (Some r), g2 \<lparr> fh_cache_hit := fh_cache_hit g2 + 1 \<rparr>))"

text \<open>
  \<^verbatim>\<open>fh_comp\<close>, the cache-using wrapper for \<^verbatim>\<open>fh_comp_raw\<close>; faults as in \<open>fh_decomp\<close>.
\<close>

definition fh_comp ::
  "host \<Rightarrow> unfs3_fh \<Rightarrow> string \<Rightarrow> int \<Rightarrow> globals \<Rightarrow> (fault + unfs3_fh) \<times> globals" where
  "fh_comp h ufh p need_dir g =
     (case fh_comp_raw h ufh p need_dir of
        Inl f \<Rightarrow> (Inl f, g)
      | Inr res \<Rightarrow>
          if fh_valid res then
            (case fh_cache_add h (dev res) (ino res) p g of
               Inl f \<Rightarrow> (Inl f, g)
             | Inr g1 \<Rightarrow> (Inr res, g1))
          else (Inr res, g))"

section \<open>What the directory scan sees\<close>

text \<open>
  The pair that \<open>fh_rec\<close> compares with the handle after the \<^verbatim>\<open>lstat\<close> of an entry:
  the device and inode of the stat, or \<open>(0, 0)\<close> when \<^verbatim>\<open>lstat\<close> failed.
\<close>

definition scan_id :: "host \<Rightarrow> string \<Rightarrow> dev_t \<times> ino_t" where
  "scan_id h obj = (case lstat h obj of None \<Rightarrow> (0, 0) | Some b \<Rightarrow> (st_dev b, st_ino b))"

text \<open>
  The pair of a handle as the comparisons of \<open>fh_rec\<close> and \<open>fh_cache_lookup\<close> read it:
  its 32-bit device and inode promoted to the width of \<^verbatim>\<open>dev_t\<close> and \<^verbatim>\<open>ino_t\<close>.
\<close>

definition fh_id :: "unfs3_fh \<Rightarrow> dev_t \<times> ino_t" where
  "fh_id fh = (ucast (dev fh), ucast (ino fh))"

text \<open>A device or inode number that the 32 bits of the handle hold without loss.\<close>

definition fits_uint32 :: "64 word \<Rightarrow> bool" where
  "fits_uint32 x = (unat x < 2 ^ 32)"

text \<open>
  The directories a scan for the pair \<open>t\<close> can open: the root, and every entry other
  than \<open>.\<close> and \<open>..\<close> of such a directory that is not itself the object looked for
  (the scan returns at a match and never descends through \<open>.\<close> or \<open>..\<close>).
\<close>

inductive examined :: "host \<Rightarrow> dev_t \<times> ino_t \<Rightarrow> string \<Rightarrow> bool" for h t where
  examined_root: "examined h t ''/''"
| examined_step:
    "examined h t lead \<Longrightarrow> readdir h lead = Some es \<Longrightarrow> e \<in> set es \<Longrightarrow>
     e \<noteq> ''..'' \<Longrightarrow> e \<noteq> ''.'' \<Longrightarrow> scan_id h (lead @ ''/'' @ e) \<noteq> t \<Longrightarrow>
     examined h t (lead @ ''/'' @ e)"

text \<open>
  Whatever \<open>fh_rec\<close> returns was matched at an entry of a directory the scan can open:
  the returned path with one more leading slash is the path that was given to
  \<^verbatim>\<open>lstat\<close>, and the stat returned carries the handle's device and inode.
\<close>

definition scan_hit :: "host \<Rightarrow> unfs3_fh \<Rightarrow> string \<Rightarrow> stat \<Rightarrow> bool" where
  "scan_hit h fh r b =
     (\<exists>lead' es' e. examined h (fh_id fh) lead' \<and> readdir h lead' = Some es' \<and> e \<in> set es' \<and>
        CHR ''/'' # r = lead' @ ''/'' @ e \<and> scan_id h (lead' @ ''/'' @ e) = fh_id fh \<and>
        (st_dev b, st_ino b) = fh_id fh \<and>
        (\<forall>s. lstat h (lead' @ ''/'' @ e) = Some s \<longrightarrow> b = s))"

section \<open>Path names\<close>

text \<open>
  The absolute path made of the names \<open>ns\<close>, each preceded by a slash:
  \<open>path_of [a, b, c]\<close> is \<open>/a/b/c\<close>.
\<close>

definition path_of :: "string list \<Rightarrow> string" where
  "path_of ns = concat (map (\<lambda>n. CHR ''/'' # n) ns)"

text \<open>
  File names as a directory holds them: not empty, without a slash and without the
  string terminator.
\<close>

definition good_names :: "string list \<Rightarrow> bool" where
  "good_names ns = (\<forall>n \<in> set ns. n \<noteq> [] \<and> CHR ''/'' \<notin> set n \<and> NUL \<notin> set n)"

section \<open>Example inputs\<close>

text \<open>
  The tree of the spec's scenario S1: directories \<open>/\<close> (inode 2), \<open>/a\<close> (10), \<open>/a/b\<close> (20)
  and the regular file \<open>/a/b/c\<close> (30), all on device 1. Every directory lists \<open>.\<close> and
  \<open>..\<close> first; a path with a doubled leading slash names the same object.
\<close>

definition ex_dir :: "ino_t \<Rightarrow> stat" where
  "ex_dir n = \<lparr> st_dev = 1, st_ino = n, st_mode = 0x41ED, st_gen = 0 \<rparr>"

definition ex_file :: "ino_t \<Rightarrow> stat" where
  "ex_file n = \<lparr> st_dev = 1, st_ino = n, st_mode = 0x81A4, st_gen = 0 \<rparr>"

definition ex_lstat :: "string \<Rightarrow> stat option" where
  "ex_lstat p =
     (if p \<in> {''/'', ''//.'', ''//..'', ''//a/..''} then Some (ex_dir 2)
      else if p \<in> {''/a'', ''//a'', ''//a/.'', ''//a/b/..''} then Some (ex_dir 10)
      else if p \<in> {''/a/b'', ''//a/b'', ''//a/b/.''} then Some (ex_dir 20)
      else if p \<in> {''/a/b/c'', ''//a/b/c''} then Some (ex_file 30)
      else None)"

definition ex_readdir :: "string \<Rightarrow> string list option" where
  "ex_readdir p =
     (if p = ''/'' then Some [''.'', ''..'', ''a'']
      else if p = ''//a'' then Some [''.'', ''..'', ''b'']
      else if p = ''//a/b'' then Some [''.'', ''..'', ''c'']
      else None)"

definition ex_host :: host where
  "ex_host = \<lparr> sys_lstat = ex_lstat, sys_readdir = ex_readdir,
               sys_open = (\<lambda>p. None), sys_ioctl_getversion = (\<lambda>fd. None),
               HAVE_STRUCT_STAT_ST_GEN = False, HAVE_LINUX_EXT2_FS_H = False,
               NFS_MAXPATHLEN = 1024 \<rparr>"

text \<open>Some content of the storage of an uninitialised \<^verbatim>\<open>unfs3_fh_t\<close>.\<close>

definition ex_ufh :: unfs3_fh where
  "ex_ufh = \<lparr> dev = 9, ino = 9, gen = 9, len = 7, inos = replicate FH_MAXLEN 0xAA \<rparr>"

text \<open>The handle that \<open>fh_comp_raw\<close> composes for \<open>/a/b/c\<close> in storage that held \<open>ex_ufh\<close>.\<close>

definition ex_S1_fh :: unfs3_fh where
  "ex_S1_fh = \<lparr> dev = 1, ino = 30, gen = 30, len = 3,
                 inos = [10, 20, 30] @ replicate 61 0xAA \<rparr>"

text \<open>The state after \<^verbatim>\<open>fh_cache_init\<close>, with nothing cached.\<close>

definition ex_globals :: globals where
  "ex_globals = \<lparr> st_cache_valid = False, st_cache = ex_dir 0,
                  fh_cache = replicate CACHE_ENTRIES empty_slot, fh_cache_max = 0,
                  fh_cache_use = 0, fh_cache_hit = 0, fh_cache_time = 0 \<rparr>"

text \<open>
  A full path cache as 4096 calls of \<open>fh_cache_add\<close> for the inodes 1 to 4096 of device 1
  and one later hit on the first of them leave it: slot \<open>k\<close> holds inode \<open>k + 1\<close> with
  the stamp \<open>k + 1\<close>, except that slot 0 carries the newest stamp, 4097.
\<close>

definition ex_name :: "nat \<Rightarrow> string" where
  "ex_name k = ''/f'' @ map (\<lambda>j. char_of (97 + (k div 16 ^ j) mod 16)) [2, 1, 0]"

definition ex_slot :: "nat \<Rightarrow> unfs3_cache_t" where
  "ex_slot k = \<lparr> c_dev = 1, c_ino = of_nat k + 1, c_path = ex_name k,
                 c_use = (if k = 0 then 4097 else of_nat k + 1) \<rparr>"

definition ex_full :: globals where
  "ex_full = \<lparr> st_cache_valid = True, st_cache = ex_file 1,
               fh_cache = map ex_slot [0..<CACHE_ENTRIES], fh_cache_max = CACHE_ENTRIES - 1,
               fh_cache_use = 1, fh_cache_hit = 1, fh_cache_time = 4097 \<rparr>"

text \<open>
  The state after one \<open>fh_comp\<close> that cached the path \<open>p\<close> for the file with device 1
  and inode 30, and a wire handle for that file with the trail of \<open>/a/b/c\<close>.
\<close>

definition ex_cached :: "string \<Rightarrow> globals" where
  "ex_cached p = ex_globals
     \<lparr> fh_cache := (fh_cache ex_globals)[0 := \<lparr> c_dev = 1, c_ino = 30, c_path = p, c_use = 1 \<rparr>],
       fh_cache_max := 1, fh_cache_time := 1 \<rparr>"

definition ex_nfh :: nfs_fh3 where
  "ex_nfh = [1, 0, 0, 0, 30, 0, 0, 0, 30, 0, 0, 0, 3, 10, 20, 30]"

text \<open>
  A root directory with one regular file (inode 10 on device 1) under two names, the hard
  links \<open>/a\<close> and \<open>/b\<close>, listed in this order.
\<close>

definition ex_links_lstat :: "string \<Rightarrow> stat option" where
  "ex_links_lstat p =
     (if p \<in> {''/'', ''//.'', ''//..''} then Some (ex_dir 2)
      else if p \<in> {''/a'', ''//a'', ''/b'', ''//b''} then Some (ex_file 10)
      else None)"

definition ex_links_readdir :: "string \<Rightarrow> string list option" where
  "ex_links_readdir p = (if p = ''/'' then Some [''.'', ''..'', ''a'', ''b''] else None)"

definition ex_links :: host where
  "ex_links = \<lparr> sys_lstat = ex_links_lstat, sys_readdir = ex_links_readdir,
                sys_open = (\<lambda>p. None), sys_ioctl_getversion = (\<lambda>fd. None),
                HAVE_STRUCT_STAT_ST_GEN = False, HAVE_LINUX_EXT2_FS_H = False,
                NFS_MAXPATHLEN = 1024 \<rparr>"

text \<open>The handle that \<open>fh_comp_raw\<close> composes for \<open>/b\<close> in storage that held \<open>ex_ufh\<close>.\<close>

definition ex_links_fh :: unfs3_fh where
  "ex_links_fh = \<lparr> dev = 1, ino = 10, gen = 10, len = 1, inos = 10 # replicate 63 0xAA \<rparr>"

text \<open>
  A tree with less regular entries, all on device 1. The root (inode 2) lists \<open>ghost\<close>,
  a name whose \<^verbatim>\<open>lstat\<close> fails, the directory \<open>d\<close> with the inode \<open>0xABCDEF\<close>, which
  holds the file \<open>f\<close> with the inode \<open>0x12345\<close>, and the file \<open>big\<close> whose inode
  \<open>2 ^ 32 + 30\<close> does not fit into 32 bits.
\<close>

definition ex_odd_lstat :: "string \<Rightarrow> stat option" where
  "ex_odd_lstat p =
     (if p \<in> {''/'', ''//.'', ''//..'', ''//d/..''} then Some (ex_dir 2)
      else if p \<in> {''/d'', ''//d'', ''//d/.''} then Some (ex_dir 0xABCDEF)
      else if p \<in> {''/d/f'', ''//d/f''} then Some (ex_file 0x12345)
      else if p \<in> {''/big'', ''//big''} then Some (ex_file 0x10000001E)
      else None)"

definition ex_odd_readdir :: "string \<Rightarrow> string list option" where
  "ex_odd_readdir p =
     (if p = ''/'' then Some [''.'', ''..'', ''ghost'', ''d'', ''big'']
      else if p = ''//d'' then Some [''.'', ''..'', ''f'']
      else None)"

definition ex_odd :: host where
  "ex_odd = \<lparr> sys_lstat = ex_odd_lstat, sys_readdir = ex_odd_readdir,
              sys_open = (\<lambda>p. None), sys_ioctl_getversion = (\<lambda>fd. None),
              HAVE_STRUCT_STAT_ST_GEN = False, HAVE_LINUX_EXT2_FS_H = False,
              NFS_MAXPATHLEN = 1024 \<rparr>"

text \<open>
  The handle that \<open>fh_comp_raw\<close> composes for \<open>/big\<close> in storage that held \<open>ex_ufh\<close>: the
  inode and the generation are the low 32 bits of the inode of \<open>/big\<close>.
\<close>

definition ex_big_fh :: unfs3_fh where
  "ex_big_fh = \<lparr> dev = 1, ino = 30, gen = 30, len = 1, inos = 30 # replicate 63 0xAA \<rparr>"

text \<open>
  Two wire handles that name no object of these trees, and the states that a first
  \<open>fh_decomp\<close> of each leaves behind, starting with nothing cached. The first handle has
  the pair \<open>(0, 0)\<close> and a trail of length 1; it is decoded on the tree above, and
  \<open>(0, 0)\<close> is then cached under \<open>/ghost\<close>. The second has the pair \<open>(1, 30)\<close> and the
  length 0; it is decoded on the tree \<open>/a/b/c\<close>, and \<open>(1, 30)\<close> is then cached under \<open>/\<close>.
\<close>

definition ex_ghost_cached :: globals where
  "ex_ghost_cached = ex_globals
     \<lparr> st_cache_valid := True, st_cache := (ex_dir 0) \<lparr> st_dev := 0, st_ino := 0 \<rparr>,
       fh_cache := (fh_cache ex_globals)[0 := \<lparr> c_dev = 0, c_ino = 0, c_path = ''/ghost'', c_use = 1 \<rparr>],
       fh_cache_use := 1, fh_cache_time := 1 \<rparr>"

definition ex_root_cached :: globals where
  "ex_root_cached = (ex_cached ''/'') \<lparr> fh_cache_use := 1 \<rparr>"

definition ex_ghost_nfh :: nfs_fh3 where
  "ex_ghost_nfh = [0, 0, 0, 0, 0, 0, 0, 0, 0, 0, 0, 0, 1, 0]"

definition ex_root_nfh :: nfs_fh3 where
  "ex_root_nfh = [1, 0, 0, 0, 30, 0, 0, 0, 30, 0, 0, 0, 0]"

section \<open>Properties of the handle codec\<close>

lemma FH_HASH_ucast: "FH_HASH n = ucast (n + 3 * drop_bit 8 n + 5 * drop_bit 16 n)"
proof -
  have m: "(0xFF :: 'a::len word) = mask 8" by (simp add: mask_eq_exp_minus_1)
  show ?thesis unfolding FH_HASH_def m
    by (rule bit_word_eqI) (auto simp: bit_simps dest: bit_imp_le_length)
qed

text \<open>
  The macro computes the hash of the spec, on a \<^verbatim>\<open>uint32\<close> and on an \<^verbatim>\<open>ino_t\<close>: the low
  eight bits of the sum do not depend on where the arithmetic wraps around.
\<close>

lemma FH_HASH_spec_h_32: "unat (FH_HASH (n :: uint32)) = spec_h (unat n)"
proof -
  have dvd: "(256::nat) dvd 2 ^ 32" by simp
  have "unat (FH_HASH n) = unat (n + 3 * drop_bit 8 n + 5 * drop_bit 16 n) mod 256"
    by (simp add: FH_HASH_ucast unsigned_ucast_eq take_bit_eq_mod)
  also have "\<dots> = (unat n + 3 * unat (drop_bit 8 n) + 5 * unat (drop_bit 16 n)) mod 256"
    using dvd by (simp add: unat_word_ariths mod_mod_cancel mod_simps)
  also have "\<dots> = spec_h (unat n)"
    by (simp add: spec_h_def unat_drop_bit_eq)
  finally show ?thesis .
qed

lemma FH_HASH_spec_h_64: "unat (FH_HASH (n :: ino_t)) = spec_h (unat n)"
proof -
  have dvd: "(256::nat) dvd 2 ^ 64" by simp
  have "unat (FH_HASH n) = unat (n + 3 * drop_bit 8 n + 5 * drop_bit 16 n) mod 256"
    by (simp add: FH_HASH_ucast unsigned_ucast_eq take_bit_eq_mod)
  also have "\<dots> = (unat n + 3 * unat (drop_bit 8 n) + 5 * unat (drop_bit 16 n)) mod 256"
    using dvd by (simp add: unat_word_ariths mod_mod_cancel mod_simps)
  also have "\<dots> = spec_h (unat n)"
    by (simp add: spec_h_def unat_drop_bit_eq)
  finally show ?thesis .
qed

text \<open>What \<open>fh_valid\<close> computes: both fields must be nonzero.\<close>

lemma fh_valid_false_iff: "(fh_valid h = False) = (dev h = 0 \<or> ino h = 0)"
  by (auto simp: fh_valid_def)

text \<open>
  C7, evaluated. The claim, like the comment in \<open>fh_valid\<close> (invalid filehandles have
  zero device and inode) and like \<open>invalid_fh\<close>, makes a handle invalid exactly when
  both fields are zero. The code tests \<^verbatim>\<open>fh.dev != 0 && fh.ino != 0\<close>: the handle with
  \<open>dev = 0\<close> and \<open>ino = 5\<close> is classified invalid although its inode is not zero.
\<close>

theorem fh_valid_one_zero_field:
  "fh_valid \<lparr> dev = 0, ino = 5, gen = 0, len = 0, inos = replicate FH_MAXLEN 0 \<rparr> = False \<and>
   \<not> (dev \<lparr> dev = 0, ino = 5, gen = 0, len = 0, inos = replicate FH_MAXLEN 0 \<rparr> = 0 \<and>
      ino \<lparr> dev = 0, ino = 5, gen = 0, len = 0, inos = replicate FH_MAXLEN 0 \<rparr> = 0)"
  by (simp add: fh_valid_def)

text \<open>
  C4: \<open>nfh_valid\<close> rejects a byte string exactly when it is shorter than the 13-byte
  header or its length differs from 13 plus the byte at offset 12. Nothing else is
  looked at.
\<close>

theorem nfh_valid_rejects_iff:
  "(\<not> nfh_valid b) = (length b < 13 \<or> length b \<noteq> 13 + unat (b ! 12))"
  by (auto simp: nfh_valid_def FH_MINLEN_def fh_len_def fh_cast_def)

theorem nfh_valid_rejects_iff_witness:
  "nfh_valid [0, 0, 0, 0, 20, 0, 0, 0, 7, 0, 0, 0, 1, 10] \<and>
   \<not> nfh_valid [0, 0, 0, 0, 20, 0, 0, 0, 7, 0, 0, 0, 1] \<and>
   \<not> nfh_valid [1, 0, 0, 0, 20, 0, 0, 0, 7, 0, 0, 0]"
  using nfh_valid_rejects_iff [of "[0, 0, 0, 0, 20, 0, 0, 0, 7, 0, 0, 0, 1, 10]"]
        nfh_valid_rejects_iff [of "[0, 0, 0, 0, 20, 0, 0, 0, 7, 0, 0, 0, 1]"]
        nfh_valid_rejects_iff [of "[1, 0, 0, 0, 20, 0, 0, 0, 7, 0, 0, 0]"]
  by simp

text \<open>
  C3: extending a valid handle of fewer than \<open>FH_MAXLEN\<close> trail entries with
  \<open>(d, i, g)\<close> gives a handle one entry longer that carries \<open>d\<close>, \<open>i\<close>, \<open>g\<close>, has at the
  old length the hash \<open>h(i) = (i + 3 (i >> 8) + 5 (i >> 16)) mod 256\<close> of the spec and
  before it the old trail; extending a handle whose length field is \<open>FH_MAXLEN\<close>
  returns \<^verbatim>\<open>NULL\<close>, and \<open>fh_extend_post\<close> then answers with
  \<^verbatim>\<open>handle_follows = FALSE\<close>.
\<close>

theorem fh_extend_appends:
  "(nfh_valid H \<and> unat (len (fh_cast H)) < FH_MAXLEN \<and> length (inos new0) = FH_MAXLEN \<longrightarrow>
     (\<exists>H'. fh_extend new0 H d i g = Inr (Some H') \<and>
           fh_extend_post new0 H d i g = Inr (Handle_follows (fh_len H') H') \<and>
           unat (len H') = unat (len (fh_cast H)) + 1 \<and>
           dev H' = d \<and> ino H' = i \<and> gen H' = g \<and>
           inos H' ! unat (len (fh_cast H)) = FH_HASH i \<and>
           unat (inos H' ! unat (len (fh_cast H))) =
             (unat i + 3 * (unat i div 2 ^ 8) + 5 * (unat i div 2 ^ 16)) mod 256 \<and>
           take (unat (len (fh_cast H))) (inos H') =
             take (unat (len (fh_cast H))) (inos (fh_cast H)))) \<and>
   (FH_MINLEN \<le> length H \<and> unat (len (fh_cast H)) = FH_MAXLEN \<longrightarrow>
      fh_extend new0 H d i g = Inr None \<and>
      fh_extend_post new0 H d i g = Inr No_handle \<and>
      \<not> handle_follows No_handle)"
proof (intro conjI impI)
  assume a: "nfh_valid H \<and> unat (len (fh_cast H)) < FH_MAXLEN \<and> length (inos new0) = FH_MAXLEN"
  let ?n = "unat (len (fh_cast H))"
  from a have lenH: "length H = 13 + ?n" and ge: "FH_MINLEN \<le> length H"
    by (auto simp: nfh_valid_def fh_len_def FH_MINLEN_def split: if_splits)
  have li: "length (inos (fh_cast H)) = ?n"
    using lenH by (simp add: fh_cast_def)
  have n64: "?n < 64" using a by (simp add: FH_MAXLEN_def)
  have suc: "unat (len (fh_cast H) + 1) = ?n + 1"
    using n64 by (simp add: unat_word_ariths)
  define H' where "H' = fh_cast H
    \<lparr> inos := (take ?n (inos (fh_cast H)) @ drop ?n (inos new0))[?n := FH_HASH i],
      dev := d, ino := i, gen := g, len := len (fh_cast H) + 1 \<rparr>"
  have ext: "fh_extend new0 H d i g = Inr (Some H')"
    using a ge lenH li n64
    by (simp add: fh_extend_def Let_def fh_len_def FH_MINLEN_def FH_MAXLEN_def H'_def)
  have post: "fh_extend_post new0 H d i g = Inr (Handle_follows (fh_len H') H')"
    by (simp add: fh_extend_post_def ext)
  have nth: "inos H' ! ?n = FH_HASH i"
    using a li by (simp add: H'_def nth_append)
  have "unat (FH_HASH i) = (unat i + 3 * (unat i div 2 ^ 8) + 5 * (unat i div 2 ^ 16)) mod 256"
    by (simp add: FH_HASH_spec_h_32 spec_h_def drop_bit_eq_div)
  with nth have sp: "unat (inos H' ! ?n) =
      (unat i + 3 * (unat i div 2 ^ 8) + 5 * (unat i div 2 ^ 16)) mod 256"
    by simp
  have tk: "take ?n (inos H') = take ?n (inos (fh_cast H))"
    using li by (simp add: H'_def)
  show "\<exists>H'. fh_extend new0 H d i g = Inr (Some H') \<and>
           fh_extend_post new0 H d i g = Inr (Handle_follows (fh_len H') H') \<and>
           unat (len H') = unat (len (fh_cast H)) + 1 \<and>
           dev H' = d \<and> ino H' = i \<and> gen H' = g \<and>
           inos H' ! unat (len (fh_cast H)) = FH_HASH i \<and>
           unat (inos H' ! unat (len (fh_cast H))) =
             (unat i + 3 * (unat i div 2 ^ 8) + 5 * (unat i div 2 ^ 16)) mod 256 \<and>
           take (unat (len (fh_cast H))) (inos H') =
             take (unat (len (fh_cast H))) (inos (fh_cast H))"
    using ext post nth sp tk suc by (intro exI [of _ H']) (simp add: H'_def)
next
  assume b: "FH_MINLEN \<le> length H \<and> unat (len (fh_cast H)) = FH_MAXLEN"
  then show "fh_extend new0 H d i g = Inr None"
    by (simp add: fh_extend_def Let_def)
  then show "fh_extend_post new0 H d i g = Inr No_handle"
    by (simp add: fh_extend_post_def)
  show "\<not> handle_follows No_handle" by (simp add: handle_follows_def)
qed

theorem fh_extend_appends_witness:
  "(nfh_valid [1, 0, 0, 0, 20, 0, 0, 0, 7, 0, 0, 0, 1, 10] \<and>
    unat (len (fh_cast [1, 0, 0, 0, 20, 0, 0, 0, 7, 0, 0, 0, 1, 10])) < FH_MAXLEN \<and>
    length (inos invalid_fh) = FH_MAXLEN \<and>
    (\<exists>H'. fh_extend invalid_fh [1, 0, 0, 0, 20, 0, 0, 0, 7, 0, 0, 0, 1, 10] 1 0xABCDEF 9 =
            Inr (Some H') \<and>
          unat (len H') = 2 \<and> dev H' = 1 \<and> ino H' = 0xABCDEF \<and> gen H' = 9 \<and>
          inos H' ! 1 = 173 \<and> take 1 (inos H') = [10])) \<and>
   (FH_MINLEN \<le> length (replicate 12 0 @ [64] @ replicate 64 (0::uchar)) \<and>
    unat (len (fh_cast (replicate 12 0 @ [64] @ replicate 64 0))) = FH_MAXLEN \<and>
    fh_extend invalid_fh (replicate 12 0 @ [64] @ replicate 64 0) 1 30 9 = Inr None \<and>
    fh_extend_post invalid_fh (replicate 12 0 @ [64] @ replicate 64 0) 1 30 9 = Inr No_handle)"
proof -
  let ?H = "[1, 0, 0, 0, 20, 0, 0, 0, 7, 0, 0, 0, 1, 10] :: nfs_fh3"
  let ?F = "replicate 12 0 @ [64] @ replicate 64 (0::uchar)"
  have v: "nfh_valid ?H"
    by (simp add: nfh_valid_def FH_MINLEN_def fh_len_def fh_cast_def)
  have l: "len (fh_cast ?H) = 1" "inos (fh_cast ?H) = [10]"
    by (simp_all add: fh_cast_def)
  have n: "length (inos invalid_fh) = FH_MAXLEN"
    by (simp add: invalid_fh_def)
  have f: "FH_MINLEN \<le> length ?F" "unat (len (fh_cast ?F)) = FH_MAXLEN"
    by (simp_all add: FH_MINLEN_def FH_MAXLEN_def fh_cast_def nth_append)
  have u: "unat (0xABCDEF :: uint32) = 11259375" by simp
  from fh_extend_appends [of ?H invalid_fh 1 "0xABCDEF" 9] v l n
  obtain H' where H': "fh_extend invalid_fh ?H 1 0xABCDEF 9 = Inr (Some H')"
      "unat (len H') = 2" "dev H' = 1" "ino H' = 0xABCDEF" "gen H' = 9"
      "unat (inos H' ! 1) = 173" "take 1 (inos H') = [10]"
    by (auto simp: FH_MAXLEN_def u)
  from H'(6) have "inos H' ! 1 = 173"
    by (simp add: word_unat_eq_iff)
  with H' have A: "\<exists>H'. fh_extend invalid_fh ?H 1 0xABCDEF 9 = Inr (Some H') \<and>
          unat (len H') = 2 \<and> dev H' = 1 \<and> ino H' = 0xABCDEF \<and> gen H' = 9 \<and>
          inos H' ! 1 = 173 \<and> take 1 (inos H') = [10]"
    by blast
  show ?thesis
    using A fh_extend_appends [of ?F invalid_fh 1 30 9] v l n f
    by (simp add: FH_MAXLEN_def)
qed

section \<open>Properties of the cached encoder\<close>

lemma fh_cache_lru_st_cache:
  "st_cache_valid (snd (fh_cache_lru g)) = st_cache_valid g \<and> st_cache (snd (fh_cache_lru g)) = st_cache g"
  by (simp add: fh_cache_lru_def)

lemma fh_cache_add_st_cache:
  assumes "fh_cache_add h d i p g = Inr g'"
  shows "st_cache_valid g' = st_cache_valid g \<and> st_cache g' = st_cache g"
proof (cases "fh_cache_index g d i")
  case None
  obtain idx g1 where l: "fh_cache_lru g = (idx, g1)" by (cases "fh_cache_lru g")
  with fh_cache_lru_st_cache [of g] have "st_cache_valid g1 = st_cache_valid g" "st_cache g1 = st_cache g"
    by simp_all
  with None l assms show ?thesis
    by (auto simp: fh_cache_add_def fh_cache_inval_def fh_cache_next_def Let_def split: if_splits)
next
  case (Some k)
  with assms show ?thesis
    by (auto simp: fh_cache_add_def fh_cache_inval_def fh_cache_next_def Let_def split: if_splits)
qed

lemma fh_cache_add_Inr:
  "length p < NFS_MAXPATHLEN h \<Longrightarrow> \<exists>g'. fh_cache_add h d i p g = Inr g'"
  by (simp add: fh_cache_add_def Let_def split: prod.splits)

lemma ex_S1_handle: "fh_comp_raw ex_host ex_ufh ''/a/b/c'' 0 = Inr ex_S1_fh"
  by code_simp

text \<open>
  C8, as the code has it: \<open>fh_comp\<close> never writes the attribute cache. Whatever handle
  it returns, \<open>st_cache_valid\<close> and \<open>st_cache\<close> are what they were before the call.
\<close>

theorem fh_comp_keeps_st_cache:
  "st_cache_valid (snd (fh_comp h ufh p need_dir g)) = st_cache_valid g \<and>
   st_cache (snd (fh_comp h ufh p need_dir g)) = st_cache g"
proof (cases "fh_comp_raw h ufh p need_dir")
  case (Inl f)
  then show ?thesis by (simp add: fh_comp_def)
next
  case (Inr res)
  show ?thesis
  proof (cases "fh_valid res")
    case False
    with Inr show ?thesis by (simp add: fh_comp_def)
  next
    case True
    show ?thesis
    proof (cases "fh_cache_add h (dev res) (ino res) p g")
      case (Inl f)
      with Inr True show ?thesis by (simp add: fh_comp_def)
    next
      case add: (Inr g1)
      from fh_cache_add_st_cache [OF add] Inr True add show ?thesis
        by (simp add: fh_comp_def)
    qed
  qed
qed

text \<open>
  C8 as stated fails in both halves. From a state whose attribute cache is invalid,
  \<open>fh_comp\<close> returns a valid handle for \<open>/a/b/c\<close> and the cache is still invalid; from a
  state whose attribute cache is valid, \<open>fh_comp\<close> returns the invalid handle for a
  missing path and the cache is still valid.
\<close>

theorem fh_comp_st_cache_counterexample:
  "(fst (fh_comp ex_host ex_ufh ''/a/b/c'' 0 ex_globals) = Inr ex_S1_fh \<and> fh_valid ex_S1_fh \<and>
    \<not> st_cache_valid (snd (fh_comp ex_host ex_ufh ''/a/b/c'' 0 ex_globals))) \<and>
   (fst (fh_comp ex_host ex_ufh ''/a/x'' 0 (ex_globals \<lparr> st_cache_valid := True \<rparr>)) = Inr invalid_fh \<and>
    \<not> fh_valid invalid_fh \<and>
    st_cache_valid (snd (fh_comp ex_host ex_ufh ''/a/x'' 0 (ex_globals \<lparr> st_cache_valid := True \<rparr>))))"
proof -
  have v: "fh_valid ex_S1_fh"
    by (simp add: ex_S1_fh_def fh_valid_def)
  have n: "fh_comp_raw ex_host ex_ufh ''/a/x'' 0 = Inr invalid_fh"
    by (simp add: fh_comp_raw_def lstat_def ex_host_def ex_lstat_def)
  have i: "\<not> fh_valid invalid_fh"
    by (simp add: fh_valid_def invalid_fh_def)
  have "length ''/a/b/c'' < NFS_MAXPATHLEN ex_host" by (simp add: ex_host_def)
  from fh_cache_add_Inr [OF this]
  obtain g' where add: "fh_cache_add ex_host (dev ex_S1_fh) (ino ex_S1_fh) ''/a/b/c'' ex_globals = Inr g'"
    by blast
  from fh_cache_add_st_cache [OF add] have "\<not> st_cache_valid g'"
    by (simp add: ex_globals_def)
  with v n i add show ?thesis
    by (simp add: fh_comp_def ex_S1_handle)
qed

section \<open>The root directory\<close>

text \<open>
  C6, first half, evaluated: \<open>fh_comp_raw\<close> returns for \<open>/\<close> the local \<^verbatim>\<open>fh\<close> with only
  \<open>dev\<close>, \<open>ino\<close> and \<open>gen\<close> assigned, so the length field is whatever the storage held:
  here 7, not 0.
\<close>

theorem fh_comp_raw_root_len_unset:
  "fh_comp_raw ex_host ex_ufh ''/'' 0 = Inr (ex_ufh \<lparr> dev := 1, ino := 2, gen := 2 \<rparr>) \<and>
   len (ex_ufh \<lparr> dev := 1, ino := 2, gen := 2 \<rparr>) = 7"
  by (simp add: fh_comp_raw_def lstat_def ex_host_def ex_lstat_def ex_dir_def get_gen_def ex_ufh_def)

text \<open>
  The second half of C6 holds: a handle whose length field is 0 decodes to \<open>/\<close>, and the
  state, the attribute cache included, is untouched.
\<close>

lemma fh_decomp_raw_len_0:
  "len fh = 0 \<Longrightarrow> fh_decomp_raw h ubuf (Some fh) g = (Some ''/'', g)"
  by (simp add: fh_decomp_raw_def)

section \<open>The form of resolved paths\<close>

lemma path_of_simps [simp]:
  "path_of [] = []"
  "path_of (n # ns) = CHR ''/'' # n @ path_of ns"
  "path_of (ms @ ns) = path_of ms @ path_of ns"
  by (simp_all add: path_of_def)

lemma path_of_hd: "ns \<noteq> [] \<Longrightarrow> hd (path_of ns) = CHR ''/''"
  by (cases ns) simp_all

text \<open>
  One step of the directory loop, by cases: the entry is too long for the buffer, it is
  the object, it is a directory to descend into, or it is passed over. \<open>buf1\<close> is the
  stat buffer after the \<^verbatim>\<open>lstat\<close> of the entry.
\<close>

lemma fh_rec_entries_skip:
  "\<not> length lead + length d_name + 1 < NFS_MAXPATHLEN h \<Longrightarrow>
   fh_rec_entries h ubuf fh pos lead buf (d_name # rest) = fh_rec_entries h ubuf fh pos lead buf rest"
  by (simp add: fh_rec_entries.simps)

lemma fh_rec_entries_found:
  "length lead + length d_name + 1 < NFS_MAXPATHLEN h \<Longrightarrow>
   buf1 = (case lstat h (lead @ ''/'' @ d_name) of None \<Rightarrow> buf \<lparr> st_dev := 0, st_ino := 0 \<rparr> | Some b \<Rightarrow> b) \<Longrightarrow>
   st_dev buf1 = ucast (dev fh) \<and> st_ino buf1 = ucast (ino fh) \<Longrightarrow>
   fh_rec_entries h ubuf fh pos lead buf (d_name # rest) = Some (tl lead @ ''/'' @ d_name, buf1)"
  by (simp add: fh_rec_entries.simps Let_def)

lemma fh_rec_entries_descend:
  "length lead + length d_name + 1 < NFS_MAXPATHLEN h \<Longrightarrow>
   buf1 = (case lstat h (lead @ ''/'' @ d_name) of None \<Rightarrow> buf \<lparr> st_dev := 0, st_ino := 0 \<rparr> | Some b \<Rightarrow> b) \<Longrightarrow>
   \<not> (st_dev buf1 = ucast (dev fh) \<and> st_ino buf1 = ucast (ino fh)) \<Longrightarrow>
   d_name \<noteq> ''..'' \<and> d_name \<noteq> ''.'' \<and> FH_HASH (st_ino buf1) = inos fh ! unat pos \<Longrightarrow>
   fh_rec_entries h ubuf fh pos lead buf (d_name # rest) =
     (case fh_rec h ubuf fh (pos + 1) (lead @ ''/'' @ d_name) of
        Some r \<Rightarrow> Some r
      | None \<Rightarrow> fh_rec_entries h ubuf fh pos lead buf1 rest)"
  by (auto simp: fh_rec_entries.simps Let_def)

lemma fh_rec_entries_pass:
  "length lead + length d_name + 1 < NFS_MAXPATHLEN h \<Longrightarrow>
   buf1 = (case lstat h (lead @ ''/'' @ d_name) of None \<Rightarrow> buf \<lparr> st_dev := 0, st_ino := 0 \<rparr> | Some b \<Rightarrow> b) \<Longrightarrow>
   \<not> (st_dev buf1 = ucast (dev fh) \<and> st_ino buf1 = ucast (ino fh)) \<Longrightarrow>
   \<not> (d_name \<noteq> ''..'' \<and> d_name \<noteq> ''.'' \<and> FH_HASH (st_ino buf1) = inos fh ! unat pos) \<Longrightarrow>
   fh_rec_entries h ubuf fh pos lead buf (d_name # rest) = fh_rec_entries h ubuf fh pos lead buf1 rest"
  by (auto simp: fh_rec_entries.simps Let_def)

lemma fh_rec_path_of:
  "(\<forall>ms r b. lead = CHR ''/'' # path_of ms \<longrightarrow> fh_rec h ubuf fh pos lead = Some (r, b) \<longrightarrow>
      (\<exists>ns. ns \<noteq> [] \<and> r = path_of (ms @ ns)))"
  "(\<forall>ms r b. lead = CHR ''/'' # path_of ms \<longrightarrow> fh_rec_entries h ubuf fh pos lead buf es = Some (r, b) \<longrightarrow>
      (\<exists>ns. ns \<noteq> [] \<and> r = path_of (ms @ ns)))"
proof (induction h ubuf fh pos lead and h ubuf fh pos lead buf es rule: fh_rec_fh_rec_entries.induct)
  case (1 h ubuf fh pos lead)
  then show ?case
    by (simp add: fh_rec.simps split: if_splits option.splits)
next
  case (2 h ubuf fh pos lead buf)
  show ?case by (simp add: fh_rec_entries.simps)
next
  case (3 h ubuf fh pos lead buf d_name rest)
  show ?case
  proof (intro allI impI)
    fix ms r b
    assume lead: "lead = CHR ''/'' # path_of ms"
      and res: "fh_rec_entries h ubuf fh pos lead buf (d_name # rest) = Some (r, b)"
    show "\<exists>ns. ns \<noteq> [] \<and> r = path_of (ms @ ns)"
    proof (cases "length lead + length d_name + 1 < NFS_MAXPATHLEN h")
      case False
      with res have "fh_rec_entries h ubuf fh pos lead buf rest = Some (r, b)"
        by (simp add: fh_rec_entries_skip)
      with "3.IH"(4) False lead show ?thesis by blast
    next
      case True
      define obj where "obj = lead @ ''/'' @ d_name"
      define buf1 where "buf1 = (case lstat h obj of None \<Rightarrow> buf \<lparr> st_dev := 0, st_ino := 0 \<rparr> | Some b \<Rightarrow> b)"
      note b1 = buf1_def [unfolded obj_def]
      have objms: "obj = CHR ''/'' # path_of (ms @ [d_name])"
        by (simp add: obj_def lead)
      show ?thesis
      proof (cases "st_dev buf1 = ucast (dev fh) \<and> st_ino buf1 = ucast (ino fh)")
        case found: True
        from res have "r = tl lead @ ''/'' @ d_name"
          using fh_rec_entries_found [OF True b1 found, of ubuf pos rest] by simp
        then have "r = path_of (ms @ [d_name])" by (simp add: lead)
        then show ?thesis by blast
      next
        case nf: False
        show ?thesis
        proof (cases "d_name \<noteq> ''..'' \<and> d_name \<noteq> ''.'' \<and> FH_HASH (st_ino buf1) = inos fh ! unat pos")
          case desc: True
          note step = fh_rec_entries_descend [OF True b1 nf desc, of ubuf rest, folded obj_def]
          show ?thesis
          proof (cases "fh_rec h ubuf fh (pos + 1) obj")
            case None
            with res step have "fh_rec_entries h ubuf fh pos lead buf1 rest = Some (r, b)"
              by simp
            with "3.IH"(2) [OF True obj_def buf1_def nf desc None] lead show ?thesis by blast
          next
            case (Some rb)
            with res step have "fh_rec h ubuf fh (pos + 1) obj = Some (r, b)"
              by simp
            with "3.IH"(1) [OF True obj_def buf1_def nf desc] objms
            obtain ns where "ns \<noteq> []" "r = path_of ((ms @ [d_name]) @ ns)" by blast
            then have "d_name # ns \<noteq> [] \<and> r = path_of (ms @ d_name # ns)" by simp
            then show ?thesis by blast
          qed
        next
          case nodesc: False
          with res fh_rec_entries_pass [OF True b1 nf nodesc, of ubuf rest]
          have "fh_rec_entries h ubuf fh pos lead buf1 rest = Some (r, b)"
            by simp
          with "3.IH"(3) [OF True obj_def buf1_def nf nodesc] lead show ?thesis by blast
        qed
      qed
    qed
  qed
qed


lemma ex_S1_resolves:
  "fh_rec ex_host (ex_dir 0) ex_S1_fh 0 ''/'' = Some (''/a/b/c'', ex_file 30)"
  by code_simp

lemma ex_S1_resolves_deep:
  "fh_rec ex_host (ex_dir 0) ex_S1_fh 2 ''//a/b'' = Some (''/a/b/c'', ex_file 30)"
  by code_simp

text \<open>
  C10, as the code has it: the leading slash is kept at every depth. \<open>fh_rec\<close> scans
  the directory \<open>lead\<close>, which is \<open>/\<close> at the root and \<open>//m1/.../mk\<close> below it, because
  each level appends \<open>/name\<close> to its own \<open>lead\<close>. Dropping the first character of
  \<open>lead\<close> therefore leaves \<open>/m1/.../mk\<close>, and every path returned has the form
  \<open>/m1/.../mk/n1/.../nj\<close>, starting with a slash.
\<close>

theorem fh_rec_keeps_leading_slash:
  "fh_rec h ubuf fh pos (CHR ''/'' # path_of ms) = Some (r, b) \<Longrightarrow>
   \<exists>ns. ns \<noteq> [] \<and> r = path_of (ms @ ns) \<and> hd r = CHR ''/''"
proof -
  assume "fh_rec h ubuf fh pos (CHR ''/'' # path_of ms) = Some (r, b)"
  with fh_rec_path_of(1) [of "CHR ''/'' # path_of ms" h ubuf fh pos]
  obtain ns where ns: "ns \<noteq> []" "r = path_of (ms @ ns)" by blast
  with path_of_hd [of "ms @ ns"] have "hd r = CHR ''/''" by simp
  with ns show ?thesis by blast
qed

theorem fh_rec_keeps_leading_slash_witness:
  "fh_comp_raw ex_host ex_ufh ''/a/b/c'' 0 = Inr ex_S1_fh \<and>
   fh_rec ex_host (ex_dir 0) ex_S1_fh 2 (CHR ''/'' # path_of [''a'', ''b'']) =
     Some (''/a/b/c'', ex_file 30) \<and>
   (\<exists>ns. ns \<noteq> [] \<and> ''/a/b/c'' = path_of ([''a'', ''b''] @ ns) \<and> hd ''/a/b/c'' = CHR ''/'')"
proof -
  have e: "fh_rec ex_host (ex_dir 0) ex_S1_fh 2
     (CHR ''/'' # path_of [''a'', ''b'']) = Some (''/a/b/c'', ex_file 30)"
    using ex_S1_resolves_deep by simp
  from fh_rec_keeps_leading_slash [OF e] e ex_S1_handle show ?thesis by simp
qed

text \<open>
  C10 as stated fails: the handle of \<open>/a/b/c\<close> is matched while \<open>fh_rec\<close> scans the
  directory \<open>/a/b\<close>, two levels below the root, and the path returned is \<open>/a/b/c\<close>
  with its leading slash, not \<open>a/b/c\<close>.
\<close>

theorem fh_rec_strip_counterexample:
  "fh_comp_raw ex_host ex_ufh ''/a/b/c'' 0 = Inr ex_S1_fh \<and>
   fh_rec ex_host (ex_dir 0) ex_S1_fh 2 ''//a/b'' = Some (''/a/b/c'', ex_file 30) \<and>
   fh_rec ex_host (ex_dir 0) ex_S1_fh 0 ''/'' \<noteq> Some (''a/b/c'', ex_file 30)"
  using ex_S1_resolves ex_S1_resolves_deep ex_S1_handle by simp

section \<open>Eviction from the path cache\<close>

lemma fh_cache_lru_scan_no_candidate:
  "(\<forall>k. i \<le> k \<and> k < CACHE_ENTRIES \<longrightarrow>
      c_use (c ! k) \<noteq> 0 \<and> \<not> sint (c_use (c ! k)) < sint best) \<Longrightarrow>
   fh_cache_lru_scan c i best best_idx = best_idx"
proof (induction c i best best_idx rule: fh_cache_lru_scan.induct)
  case (1 c i best best_idx)
  show ?case
  proof (cases "i < CACHE_ENTRIES")
    case True
    with "1.prems" have here: "c_use (c ! i) \<noteq> 0" "\<not> sint (c_use (c ! i)) < sint best" by auto
    from "1.prems" have "\<forall>k. i + 1 \<le> k \<and> k < CACHE_ENTRIES \<longrightarrow>
        c_use (c ! k) \<noteq> 0 \<and> \<not> sint (c_use (c ! k)) < sint best"
      by auto
    with "1.IH"(2) [OF True here] have "fh_cache_lru_scan c (i + 1) best best_idx = best_idx" .
    with True here show ?thesis
      by (subst fh_cache_lru_scan.simps) simp
  next
    case False
    then show ?thesis by (subst fh_cache_lru_scan.simps) simp
  qed
qed

text \<open>
  With every slot in use under a positive stamp, the scan of \<open>fh_cache_lru\<close> never
  replaces \<open>best = -1\<close> and answers slot 0.
\<close>

lemma fh_cache_lru_full:
  assumes "fh_cache_max g = CACHE_ENTRIES - 1"
    and "\<forall>k < CACHE_ENTRIES. 0 < sint (c_use (fh_cache g ! k))"
  shows "fh_cache_lru g = (0, g)"
proof -
  have m: "sint (- 1 :: c_int) = - 1" by simp
  have "\<forall>k. 0 \<le> k \<and> k < CACHE_ENTRIES \<longrightarrow>
      c_use (fh_cache g ! k) \<noteq> 0 \<and> \<not> sint (c_use (fh_cache g ! k)) < sint (- 1 :: c_int)"
  proof (intro allI impI)
    fix k assume "0 \<le> k \<and> k < CACHE_ENTRIES"
    with assms(2) have "0 < sint (c_use (fh_cache g ! k))" by simp
    then show "c_use (fh_cache g ! k) \<noteq> 0 \<and> \<not> sint (c_use (fh_cache g ! k)) < sint (- 1 :: c_int)"
      unfolding m by auto
  qed
  then have "fh_cache_lru_scan (fh_cache g) 0 (- 1) 0 = 0"
    by (rule fh_cache_lru_scan_no_candidate)
  with assms(1) show ?thesis by (simp add: fh_cache_lru_def)
qed

lemma fh_cache_index_scan_None:
  "(\<forall>j. k \<le> j \<and> j \<le> fh_cache_max g \<longrightarrow> \<not> (c_dev (fh_cache g ! j) = d \<and> c_ino (fh_cache g ! j) = i)) \<Longrightarrow>
   fh_cache_index_scan g d i k = None"
proof (induction g d i k rule: fh_cache_index_scan.induct)
  case (1 g d i k)
  show ?case
  proof (cases "k < fh_cache_max g + 1")
    case True
    with "1.prems" have here: "\<not> (c_dev (fh_cache g ! k) = d \<and> c_ino (fh_cache g ! k) = i)" by auto
    from "1.prems" have "\<forall>j. k + 1 \<le> j \<and> j \<le> fh_cache_max g \<longrightarrow>
        \<not> (c_dev (fh_cache g ! j) = d \<and> c_ino (fh_cache g ! j) = i)" by auto
    with "1.IH" [OF True here] have "fh_cache_index_scan g d i (k + 1) = None" .
    with True here show ?thesis
      by (subst fh_cache_index_scan.simps) auto
  next
    case False
    then show ?thesis by (subst fh_cache_index_scan.simps) simp
  qed
qed

lemma slot_overwrite:
  "(r :: unfs3_cache_t) \<lparr> c_dev := d, c_ino := i, c_use := t, c_path := p \<rparr> =
   \<lparr> c_dev = d, c_ino = i, c_path = p, c_use = t \<rparr>"
  by (cases r) simp

lemma CACHE_ENTRIES_gt_1: "1 < CACHE_ENTRIES"
  by (simp add: CACHE_ENTRIES_def)

lemma ex_full_length: "length (fh_cache ex_full) = CACHE_ENTRIES"
  by (simp add: ex_full_def)

lemma ex_full_nth: "k < CACHE_ENTRIES \<Longrightarrow> fh_cache ex_full ! k = ex_slot k"
  by (simp add: ex_full_def)

lemma ex_full_stamps:
  "set (map (\<lambda>s. sint (c_use s)) (fh_cache ex_full)) = (\<lambda>k. sint (c_use (ex_slot k))) ` {0..<CACHE_ENTRIES}"
  by (simp add: ex_full_def image_image)

lemma sint_time_of_nat:
  "n < 2 ^ 32 \<Longrightarrow> sint (of_nat n :: time_t) = int n"
  by (simp add: signed_of_nat signed_take_bit_int_eq_self)

lemma ex_slot_stamp:
  "k < CACHE_ENTRIES \<Longrightarrow> sint (c_use (ex_slot k)) = (if k = 0 then 4097 else int k + 1)"
proof -
  assume "k < CACHE_ENTRIES"
  then have "k + 1 < 2 ^ 32" by (simp add: CACHE_ENTRIES_def)
  from sint_time_of_nat [OF this] have "sint (of_nat k + 1 :: time_t) = int k + 1" by (simp add: add.commute)
  then show ?thesis by (simp add: ex_slot_def)
qed

lemma ex_slot_stamp_ge_2: "k < CACHE_ENTRIES \<Longrightarrow> 2 \<le> sint (c_use (ex_slot k))"
  by (simp add: ex_slot_stamp)

lemma ex_full_min_stamp: "Min (set (map (\<lambda>s. sint (c_use s)) (fh_cache ex_full))) = 2"
proof (rule Min_eqI)
  show "finite (set (map (\<lambda>s. sint (c_use s)) (fh_cache ex_full)))" by simp
  have "sint (c_use (ex_slot 1)) = 2" by (simp add: ex_slot_def)
  moreover have "(1::nat) \<in> {0..<CACHE_ENTRIES}" using CACHE_ENTRIES_gt_1 by simp
  ultimately show "2 \<in> set (map (\<lambda>s. sint (c_use s)) (fh_cache ex_full))"
    unfolding ex_full_stamps by (metis (mono_tags, lifting) image_eqI)
  fix y assume "y \<in> set (map (\<lambda>s. sint (c_use s)) (fh_cache ex_full))"
  then show "2 \<le> y" unfolding ex_full_stamps using ex_slot_stamp_ge_2 by auto
qed

text \<open>
  C5, evaluated on the full cache \<open>ex_full\<close>: no slot is empty, the stamps range from 2
  (slot 1, the least recently used) to 4097 (slot 0, the most recently used), the pair
  \<open>(2, 7)\<close> is not cached, and \<open>fh_cache_add\<close> overwrites slot 0.
\<close>

theorem fh_cache_add_full_overwrites_slot_0:
  "0 \<notin> set (map c_use (fh_cache ex_full)) \<and>
   Min (set (map (\<lambda>s. sint (c_use s)) (fh_cache ex_full))) = 2 \<and>
   sint (c_use (fh_cache ex_full ! 1)) = 2 \<and>
   sint (c_use (fh_cache ex_full ! 0)) = 4097 \<and>
   fh_cache_index ex_full 2 7 = None \<and>
   fh_cache_add ex_host 2 7 ''/x'' ex_full =
     Inr (ex_full \<lparr> fh_cache_time := 4098,
            fh_cache := (fh_cache ex_full)[0 := \<lparr> c_dev = 2, c_ino = 7, c_path = ''/x'', c_use = 4098 \<rparr>] \<rparr>)"
proof -
  have pos: "\<forall>k < CACHE_ENTRIES. 0 < sint (c_use (fh_cache ex_full ! k))"
    by (simp add: ex_full_nth ex_slot_stamp)
  have occ: "0 \<notin> set (map c_use (fh_cache ex_full))"
  proof
    assume "0 \<in> set (map c_use (fh_cache ex_full))"
    then obtain k where "k < CACHE_ENTRIES" "c_use (ex_slot k) = 0"
      by (auto simp: ex_full_def)
    with ex_slot_stamp_ge_2 [of k] show False by simp
  qed
  have s1: "sint (c_use (fh_cache ex_full ! 1)) = 2" "sint (c_use (fh_cache ex_full ! 0)) = 4097"
    using CACHE_ENTRIES_gt_1 by (simp_all add: ex_full_nth ex_slot_def)
  have mx: "fh_cache_max ex_full = CACHE_ENTRIES - 1" by (simp add: ex_full_def)
  have dv: "c_dev (ex_slot j) \<noteq> 2" for j by (simp add: ex_slot_def)
  have "\<forall>j. 0 \<le> j \<and> j \<le> fh_cache_max ex_full \<longrightarrow>
      \<not> (c_dev (fh_cache ex_full ! j) = 2 \<and> c_ino (fh_cache ex_full ! j) = 7)"
  proof (intro allI impI)
    fix j assume "0 \<le> j \<and> j \<le> fh_cache_max ex_full"
    with mx CACHE_ENTRIES_gt_1 have "j < CACHE_ENTRIES" by simp
    then show "\<not> (c_dev (fh_cache ex_full ! j) = 2 \<and> c_ino (fh_cache ex_full ! j) = 7)"
      by (simp add: ex_full_nth dv)
  qed
  then have idx: "fh_cache_index ex_full 2 7 = None"
    unfolding fh_cache_index_def by (rule fh_cache_index_scan_None)
  have lru: "fh_cache_lru ex_full = (0, ex_full)"
    using mx pos by (rule fh_cache_lru_full)
  have t: "fh_cache_time ex_full = 4097" by (simp add: ex_full_def)
  have l0: "0 < length (fh_cache ex_full)"
    using CACHE_ENTRIES_gt_1 by (simp add: ex_full_length)
  have n: "\<not> NFS_MAXPATHLEN ex_host \<le> length ''/x''" by (simp add: ex_host_def)
  have add: "fh_cache_add ex_host 2 7 ''/x'' ex_full =
     Inr (ex_full \<lparr> fh_cache_time := 4098,
            fh_cache := (fh_cache ex_full)[0 := \<lparr> c_dev = 2, c_ino = 7, c_path = ''/x'', c_use = 4098 \<rparr>] \<rparr>)"
    using l0 n by (simp add: fh_cache_add_def idx lru fh_cache_inval_def fh_cache_next_def t slot_overwrite)
  from occ ex_full_min_stamp s1 idx add show ?thesis by simp
qed

section \<open>Promotion and truncation of device and inode numbers\<close>

lemma unat_ucast_32_64: "unat (ucast (x :: 32 word) :: 64 word) = unat x"
proof -
  have "unat x < 2 ^ LENGTH(32)" by (rule unsigned_less)
  then have "unat x < 2 ^ 32" by simp
  then show ?thesis by (simp add: unsigned_ucast_eq take_bit_eq_mod)
qed

lemma ucast_32_64_eq: "((ucast (x :: 32 word) :: 64 word) = ucast y) = (x = y)"
  by (metis unat_ucast_32_64 word_unat_eq_iff)

lemma ucast_32_64_eq_0: "((ucast (x :: 32 word) :: 64 word) = 0) = (x = 0)"
  using ucast_32_64_eq [of x 0] by simp

lemma unat_ucast_64_32: "unat (ucast (n :: 64 word) :: 32 word) = unat n mod 2 ^ 32"
  by (simp add: unsigned_ucast_eq take_bit_eq_mod unat_mod)

lemma ucast_64_32_fits: "unat (n :: 64 word) < 2 ^ 32 \<Longrightarrow> (ucast (ucast n :: 32 word) :: 64 word) = n"
  by (simp add: word_unat_eq_iff unat_ucast_32_64 unat_ucast_64_32)

section \<open>Soundness of the directory scan\<close>

lemma scanned_id:
  "buf1 = (case lstat h obj of None \<Rightarrow> buf \<lparr> st_dev := 0, st_ino := 0 \<rparr> | Some b \<Rightarrow> b) \<Longrightarrow>
   (st_dev buf1, st_ino buf1) = scan_id h obj"
  by (simp add: scan_id_def split: option.splits)

lemma examined_slash: "examined h t lead \<Longrightarrow> \<exists>u. lead = CHR ''/'' # u"
  by (induction rule: examined.induct) auto

lemma fh_rec_sound:
  "(\<forall>r b. examined h (fh_id fh) lead \<longrightarrow> fh_rec h ubuf fh pos lead = Some (r, b) \<longrightarrow>
      scan_hit h fh r b)"
  "(\<forall>r b es0. examined h (fh_id fh) lead \<longrightarrow> readdir h lead = Some es0 \<longrightarrow>
      set es \<subseteq> set es0 \<longrightarrow> fh_rec_entries h ubuf fh pos lead buf es = Some (r, b) \<longrightarrow>
      scan_hit h fh r b)"
proof (induction h ubuf fh pos lead and h ubuf fh pos lead buf es rule: fh_rec_fh_rec_entries.induct)
  case (1 h ubuf fh pos lead)
  show ?case
  proof (intro allI impI)
    fix r b
    assume ex: "examined h (fh_id fh) lead"
      and res: "fh_rec h ubuf fh pos lead = Some (r, b)"
    from res have np: "pos \<noteq> ucast (len fh)"
      by (auto simp: fh_rec.simps split: if_splits)
    with res obtain es0 where rd: "readdir h lead = Some es0"
      and "fh_rec_entries h ubuf fh pos lead ubuf es0 = Some (r, b)"
      by (auto simp: fh_rec.simps split: option.splits)
    with "1.IH" [OF np rd] ex show "scan_hit h fh r b" by blast
  qed
next
  case (2 h ubuf fh pos lead buf)
  show ?case by (simp add: fh_rec_entries.simps)
next
  case (3 h ubuf fh pos lead buf d_name rest)
  show ?case
  proof (intro allI impI)
    fix r b es0
    assume ex: "examined h (fh_id fh) lead"
      and rd: "readdir h lead = Some es0"
      and sub: "set (d_name # rest) \<subseteq> set es0"
      and res: "fh_rec_entries h ubuf fh pos lead buf (d_name # rest) = Some (r, b)"
    from sub have mem: "d_name \<in> set es0" and sub': "set rest \<subseteq> set es0" by auto
    show "scan_hit h fh r b"
    proof (cases "length lead + length d_name + 1 < NFS_MAXPATHLEN h")
      case False
      with res have "fh_rec_entries h ubuf fh pos lead buf rest = Some (r, b)"
        by (simp add: fh_rec_entries_skip)
      with "3.IH"(4) False ex rd sub' show ?thesis by blast
    next
      case True
      define obj where "obj = lead @ ''/'' @ d_name"
      define buf1 where "buf1 = (case lstat h obj of None \<Rightarrow> buf \<lparr> st_dev := 0, st_ino := 0 \<rparr> | Some b \<Rightarrow> b)"
      note b1 = buf1_def [unfolded obj_def]
      have id: "(st_dev buf1, st_ino buf1) = scan_id h obj"
        using buf1_def by (rule scanned_id)
      show ?thesis
      proof (cases "st_dev buf1 = ucast (dev fh) \<and> st_ino buf1 = ucast (ino fh)")
        case found: True
        from res have rb: "r = tl lead @ ''/'' @ d_name" "b = buf1"
          using fh_rec_entries_found [OF True b1 found, of ubuf pos rest] by simp_all
        from ex obtain u where "lead = CHR ''/'' # u" using examined_slash by blast
        with rb have "CHR ''/'' # r = lead @ ''/'' @ d_name" by simp
        moreover from id found have "scan_id h (lead @ ''/'' @ d_name) = fh_id fh"
          by (simp add: obj_def fh_id_def)
        moreover from found have "(st_dev buf1, st_ino buf1) = fh_id fh"
          by (simp add: fh_id_def)
        moreover have "\<forall>s. lstat h (lead @ ''/'' @ d_name) = Some s \<longrightarrow> b = s"
          by (simp add: rb b1)
        ultimately show ?thesis
          unfolding scan_hit_def using ex rd mem found rb by blast
      next
        case nf: False
        show ?thesis
        proof (cases "d_name \<noteq> ''..'' \<and> d_name \<noteq> ''.'' \<and> FH_HASH (st_ino buf1) = inos fh ! unat pos")
          case desc: True
          note step = fh_rec_entries_descend [OF True b1 nf desc, of ubuf rest, folded obj_def]
          from id nf have "scan_id h (lead @ ''/'' @ d_name) \<noteq> fh_id fh"
            by (auto simp: obj_def fh_id_def)
          with ex rd mem desc have exo: "examined h (fh_id fh) obj"
            unfolding obj_def by (intro examined_step) auto
          show ?thesis
          proof (cases "fh_rec h ubuf fh (pos + 1) obj")
            case None
            with res step have "fh_rec_entries h ubuf fh pos lead buf1 rest = Some (r, b)"
              by simp
            with "3.IH"(2) [OF True obj_def buf1_def nf desc None] ex rd sub' show ?thesis by blast
          next
            case (Some rb)
            with res step have "fh_rec h ubuf fh (pos + 1) obj = Some (r, b)"
              by simp
            with "3.IH"(1) [OF True obj_def buf1_def nf desc] exo show ?thesis by blast
          qed
        next
          case nodesc: False
          with res fh_rec_entries_pass [OF True b1 nf nodesc, of ubuf rest]
          have "fh_rec_entries h ubuf fh pos lead buf1 rest = Some (r, b)"
            by simp
          with "3.IH"(3) [OF True obj_def buf1_def nf nodesc] ex rd sub' show ?thesis by blast
        qed
      qed
    qed
  qed
qed

section \<open>Lookup in the path cache\<close>

lemma fh_cache_index_scan_Some:
  "fh_cache_index_scan g d i k0 = Some k \<Longrightarrow>
   k0 \<le> k \<and> k \<le> fh_cache_max g \<and> c_dev (fh_cache g ! k) = d \<and> c_ino (fh_cache g ! k) = i"
proof (induction g d i k0 rule: fh_cache_index_scan.induct)
  case (1 g d i k0)
  show ?case
  proof (cases "k0 < fh_cache_max g + 1")
    case True
    show ?thesis
    proof (cases "c_dev (fh_cache g ! k0) = d \<and> c_ino (fh_cache g ! k0) = i")
      case here: True
      with True "1.prems" have "k = k0"
        by (subst (asm) fh_cache_index_scan.simps) simp
      with True here show ?thesis by simp
    next
      case nh: False
      with True "1.prems" have "fh_cache_index_scan g d i (k0 + 1) = Some k"
        by (subst (asm) fh_cache_index_scan.simps) auto
      with "1.IH" [OF True nh] show ?thesis by simp
    qed
  next
    case False
    with "1.prems" show ?thesis
      by (subst (asm) fh_cache_index_scan.simps) simp
  qed
qed

lemma fh_cache_index_Some:
  "globals_ok g \<Longrightarrow> fh_cache_index g d i = Some k \<Longrightarrow>
   k < length (fh_cache g) \<and> c_dev (fh_cache g ! k) = d \<and> c_ino (fh_cache g ! k) = i"
  using fh_cache_index_scan_Some [of g d i 0 k]
  by (simp add: fh_cache_index_def globals_ok_def)

lemma slot_cleared:
  "(r :: unfs3_cache_t) \<lparr> c_dev := 0, c_ino := 0, c_use := 0, c_path := [] \<rparr> = empty_slot"
  by (simp add: slot_overwrite empty_slot_def)

text \<open>The two outcomes of \<open>fh_cache_lookup\<close> on a slot that \<open>fh_cache_index\<close> found.\<close>

lemma fh_cache_lookup_hit:
  assumes "fh_cache_index g d i = Some k" "k < length (fh_cache g)"
    and "lstat h (c_path (fh_cache g ! k)) = Some buf" "st_dev buf = ucast d \<and> st_ino buf = ucast i"
  shows "fh_cache_lookup h d i g =
     (Some (c_path (fh_cache g ! k)),
      g \<lparr> fh_cache_time := fh_cache_time g + 1,
          fh_cache := (fh_cache g)[k := (fh_cache g ! k) \<lparr> c_use := scast (fh_cache_time g + 1) \<rparr>],
          st_cache_valid := True, st_cache := buf \<rparr>)"
  using assms by (simp add: fh_cache_lookup_def fh_cache_next_def)

lemma fh_cache_lookup_stale:
  assumes "fh_cache_index g d i = Some k"
    and "case lstat h (c_path (fh_cache g ! k)) of
           None \<Rightarrow> True | Some buf \<Rightarrow> \<not> (st_dev buf = ucast d \<and> st_ino buf = ucast i)"
  shows "fh_cache_lookup h d i g = (None, fh_cache_inval k g)"
  using assms by (auto simp: fh_cache_lookup_def split: option.splits)

lemma fh_cache_lookup_Some:
  assumes "fh_cache_lookup h d i g = (Some p, g')"
  shows "\<exists>k buf. fh_cache_index g d i = Some k \<and> lstat h (c_path (fh_cache g ! k)) = Some buf \<and>
           st_dev buf = ucast d \<and> st_ino buf = ucast i"
  using assms by (auto simp: fh_cache_lookup_def fh_cache_next_def split: option.splits if_splits)

text \<open>What \<open>fh_decomp_raw\<close> and \<open>fh_decomp\<close> can return.\<close>

lemma fh_decomp_raw_Some:
  "fst (fh_decomp_raw h ubuf (Some fh) g) = Some r \<Longrightarrow>
   (len fh = 0 \<and> r = ''/'') \<or> (len fh \<noteq> 0 \<and> (\<exists>b. fh_rec h ubuf fh 0 ''/'' = Some (r, b)))"
  by (auto simp: fh_decomp_raw_def split: if_splits option.splits)

lemma fh_decomp_Some:
  assumes "fst (fh_decomp h ubuf fh g) = Inr (Some r)"
  shows "nfh_valid fh \<and>
         (fst (fh_cache_lookup h (dev (fh_cast fh)) (ino (fh_cast fh)) g) = Some r \<or>
          (\<exists>g2. fst (fh_decomp_raw h ubuf (Some (fh_cast fh)) g2) = Some r))"
proof -
  from assms have v: "nfh_valid fh"
    by (auto simp: fh_decomp_def split: if_splits)
  obtain res g1 where l: "fh_cache_lookup h (dev (fh_cast fh)) (ino (fh_cast fh)) g = (res, g1)"
    by (cases "fh_cache_lookup h (dev (fh_cast fh)) (ino (fh_cast fh)) g")
  show ?thesis
  proof (cases res)
    case None
    define g2 where "g2 = g1 \<lparr> fh_cache_use := fh_cache_use g1 + 1 \<rparr>"
    from assms v l None have "fst (fh_decomp_raw h ubuf (Some (fh_cast fh)) g2) = Some r"
      by (auto simp: fh_decomp_def Let_def g2_def split: prod.splits option.splits sum.splits)
    with v show ?thesis by blast
  next
    case (Some q)
    with assms v l have "q = r"
      by (simp add: fh_decomp_def Let_def)
    with v l Some show ?thesis by simp
  qed
qed

text \<open>
  C9, as the code has it. (1) When \<open>fh_cache_lookup\<close> returns a path, it is the path
  stored in the slot found for \<open>(d, i)\<close>, \<^verbatim>\<open>lstat\<close> of it succeeded with exactly that
  device and inode, the attribute cache holds that stat, and the slot carries the next
  value of the 32-bit counter \<open>fh_cache_time\<close>, which wraps. (2) When \<^verbatim>\<open>lstat\<close> of the
  stored path fails or reports another pair, the lookup misses and the slot is cleared.
  (3) \<open>fh_decomp\<close> of a handle for \<open>(d, i)\<close> then does not return that stale path, under
  three conditions: when \<^verbatim>\<open>lstat\<close> of the stale path fails, the handle is not the pair
  \<open>(0, 0)\<close>, which the scan substitutes for a failed \<^verbatim>\<open>lstat\<close>; the stale path is not the
  root; and the host resolves the path with a doubled leading slash, as the scan builds
  it, to the same object.
\<close>

theorem fh_cache_lookup_validated:
  assumes ok: "globals_ok g"
  shows
    "(\<forall>p g'. fh_cache_lookup h d i g = (Some p, g') \<longrightarrow>
        (\<exists>k buf. fh_cache_index g d i = Some k \<and> p = c_path (fh_cache g ! k) \<and>
           lstat h p = Some buf \<and> st_dev buf = ucast d \<and> st_ino buf = ucast i \<and>
           st_cache_valid g' \<and> st_cache g' = buf \<and>
           c_use (fh_cache g' ! k) = scast (fh_cache_time g + 1) \<and>
           fh_cache_time g' = fh_cache_time g + 1)) \<and>
     (\<forall>k. fh_cache_index g d i = Some k \<and>
          (case lstat h (c_path (fh_cache g ! k)) of
             None \<Rightarrow> True | Some buf \<Rightarrow> \<not> (st_dev buf = ucast d \<and> st_ino buf = ucast i)) \<longrightarrow>
        fst (fh_cache_lookup h d i g) = None \<and>
        fh_cache (snd (fh_cache_lookup h d i g)) ! k = empty_slot \<and>
        (\<forall>fh ubuf. nfh_valid fh \<and> dev (fh_cast fh) = d \<and> ino (fh_cast fh) = i \<and>
           (lstat h (c_path (fh_cache g ! k)) = None \<longrightarrow> d \<noteq> 0 \<or> i \<noteq> 0) \<and>
           c_path (fh_cache g ! k) \<noteq> ''/'' \<and>
           lstat h (CHR ''/'' # c_path (fh_cache g ! k)) = lstat h (c_path (fh_cache g ! k)) \<longrightarrow>
           fst (fh_decomp h ubuf fh g) \<noteq> Inr (Some (c_path (fh_cache g ! k)))))"
proof (intro conjI allI impI)
  fix p g'
  assume res: "fh_cache_lookup h d i g = (Some p, g')"
  then obtain k buf where idx: "fh_cache_index g d i = Some k"
    and ls: "lstat h (c_path (fh_cache g ! k)) = Some buf"
    and m: "st_dev buf = ucast d \<and> st_ino buf = ucast i"
    using fh_cache_lookup_Some by blast
  from ok idx have kl: "k < length (fh_cache g)"
    using fh_cache_index_Some by blast
  from fh_cache_lookup_hit [OF idx kl ls m] res
  have p: "p = c_path (fh_cache g ! k)"
    and g': "g' = g \<lparr> fh_cache_time := fh_cache_time g + 1,
          fh_cache := (fh_cache g)[k := (fh_cache g ! k) \<lparr> c_use := scast (fh_cache_time g + 1) \<rparr>],
          st_cache_valid := True, st_cache := buf \<rparr>"
    by simp_all
  from g' kl have "st_cache_valid g' \<and> st_cache g' = buf \<and>
           c_use (fh_cache g' ! k) = scast (fh_cache_time g + 1) \<and>
           fh_cache_time g' = fh_cache_time g + 1"
    by simp
  with idx p ls m
  show "\<exists>k buf. fh_cache_index g d i = Some k \<and> p = c_path (fh_cache g ! k) \<and>
           lstat h p = Some buf \<and> st_dev buf = ucast d \<and> st_ino buf = ucast i \<and>
           st_cache_valid g' \<and> st_cache g' = buf \<and>
           c_use (fh_cache g' ! k) = scast (fh_cache_time g + 1) \<and>
           fh_cache_time g' = fh_cache_time g + 1"
    by blast
next
  fix k
  assume a: "fh_cache_index g d i = Some k \<and>
          (case lstat h (c_path (fh_cache g ! k)) of
             None \<Rightarrow> True | Some buf \<Rightarrow> \<not> (st_dev buf = ucast d \<and> st_ino buf = ucast i))"
  then have st: "fh_cache_lookup h d i g = (None, fh_cache_inval k g)"
    using fh_cache_lookup_stale by blast
  from ok a have kl: "k < length (fh_cache g)"
    using fh_cache_index_Some by blast
  show "fst (fh_cache_lookup h d i g) = None" by (simp add: st)
  show "fh_cache (snd (fh_cache_lookup h d i g)) ! k = empty_slot"
    using kl by (simp add: st fh_cache_inval_def slot_cleared)
next
  fix k fh ubuf
  let ?p = "c_path (fh_cache g ! k)"
  assume a: "fh_cache_index g d i = Some k \<and>
          (case lstat h ?p of
             None \<Rightarrow> True | Some buf \<Rightarrow> \<not> (st_dev buf = ucast d \<and> st_ino buf = ucast i))"
    and b: "nfh_valid fh \<and> dev (fh_cast fh) = d \<and> ino (fh_cast fh) = i \<and>
           (lstat h ?p = None \<longrightarrow> d \<noteq> 0 \<or> i \<noteq> 0) \<and> ?p \<noteq> ''/'' \<and>
           lstat h (CHR ''/'' # ?p) = lstat h ?p"
  from a have st: "fh_cache_lookup h d i g = (None, fh_cache_inval k g)"
    using fh_cache_lookup_stale by blast
  have z: "(ucast d :: dev_t) = 0 \<longleftrightarrow> d = 0" "(ucast i :: ino_t) = 0 \<longleftrightarrow> i = 0"
    by (simp_all add: ucast_32_64_eq_0)
  from a b have nid: "scan_id h (CHR ''/'' # ?p) \<noteq> fh_id (fh_cast fh)"
    by (auto simp: scan_id_def fh_id_def z split: option.splits)
  show "fst (fh_decomp h ubuf fh g) \<noteq> Inr (Some ?p)"
  proof
    assume "fst (fh_decomp h ubuf fh g) = Inr (Some ?p)"
    from fh_decomp_Some [OF this] b st
    obtain g2 where "fst (fh_decomp_raw h ubuf (Some (fh_cast fh)) g2) = Some ?p"
      by auto
    from fh_decomp_raw_Some [OF this] b
    obtain bf where "fh_rec h ubuf (fh_cast fh) 0 ''/'' = Some (?p, bf)"
      by auto
    with fh_rec_sound(1) [of h "fh_cast fh" "''/''" ubuf 0] examined_root
    have "scan_hit h (fh_cast fh) ?p bf" by blast
    then have "scan_id h (CHR ''/'' # ?p) = fh_id (fh_cast fh)"
      by (auto simp: scan_hit_def)
    with nid show False by simp
  qed
qed

lemma ex_cached_ok: "globals_ok (ex_cached p)"
  by (simp add: globals_ok_def ex_cached_def ex_globals_def CACHE_ENTRIES_def)

lemma ex_cached_slot_0:
  "fh_cache (ex_cached p) ! 0 = \<lparr> c_dev = 1, c_ino = 30, c_path = p, c_use = 1 \<rparr>"
  by (simp add: ex_cached_def ex_globals_def CACHE_ENTRIES_def)

lemma ex_cached_index: "fh_cache_index (ex_cached p) 1 30 = Some 0"
  by (simp add: fh_cache_index_def fh_cache_index_scan.simps [of _ _ _ 0] ex_cached_slot_0)

lemma ex_nfh_cast:
  "nfh_valid ex_nfh" "dev (fh_cast ex_nfh) = 1" "ino (fh_cast ex_nfh) = 30"
  by (simp_all add: nfh_valid_def FH_MINLEN_def fh_len_def fh_cast_def ex_nfh_def le32_def)

lemma ex_lstat_simps:
  "lstat ex_host ''/a/b/c'' = Some (ex_file 30)"
  "lstat ex_host ''/a/b/old'' = None"
  "lstat ex_host ''//a/b/old'' = None"
  by (simp_all add: lstat_def ex_host_def ex_lstat_def)

theorem fh_cache_lookup_validated_witness:
  "globals_ok (ex_cached ''/a/b/c'') \<and>
   (\<exists>g'. fh_cache_lookup ex_host 1 30 (ex_cached ''/a/b/c'') = (Some ''/a/b/c'', g') \<and>
      lstat ex_host ''/a/b/c'' = Some (ex_file 30) \<and>
      st_cache_valid g' \<and> st_cache g' = ex_file 30 \<and> c_use (fh_cache g' ! 0) = 2) \<and>
   globals_ok (ex_cached ''/a/b/old'') \<and>
   fh_cache_index (ex_cached ''/a/b/old'') 1 30 = Some 0 \<and>
   lstat ex_host (c_path (fh_cache (ex_cached ''/a/b/old'') ! 0)) = None \<and>
   fst (fh_cache_lookup ex_host 1 30 (ex_cached ''/a/b/old'')) = None \<and>
   fh_cache (snd (fh_cache_lookup ex_host 1 30 (ex_cached ''/a/b/old''))) ! 0 = empty_slot \<and>
   nfh_valid ex_nfh \<and> dev (fh_cast ex_nfh) = 1 \<and> ino (fh_cast ex_nfh) = 30 \<and>
   fst (fh_decomp ex_host (ex_dir 0) ex_nfh (ex_cached ''/a/b/old'')) \<noteq> Inr (Some ''/a/b/old'')"
proof -
  let ?g = "ex_cached ''/a/b/c''"
  let ?s = "ex_cached ''/a/b/old''"
  have t: "fh_cache_time ?g = 1" by (simp add: ex_cached_def)
  have l0: "0 < length (fh_cache ?g)"
    by (simp add: ex_cached_def ex_globals_def CACHE_ENTRIES_def)
  have m: "st_dev (ex_file 30) = ucast (1 :: uint32) \<and> st_ino (ex_file 30) = ucast (30 :: uint32)"
    by (simp add: ex_file_def)
  have ls: "lstat ex_host (c_path (fh_cache ?g ! 0)) = Some (ex_file 30)"
    by (simp add: ex_cached_slot_0 ex_lstat_simps)
  obtain g' where hit: "fh_cache_lookup ex_host 1 30 ?g = (Some ''/a/b/c'', g')"
    using fh_cache_lookup_hit [OF ex_cached_index l0 ls m] by (simp add: ex_cached_slot_0)
  from fh_cache_lookup_validated [OF ex_cached_ok, of ex_host 1 30 "''/a/b/c''"] hit
  have A: "st_cache_valid g' \<and> st_cache g' = ex_file 30 \<and> c_use (fh_cache g' ! 0) = 2"
    by (auto simp: ex_cached_index ex_lstat_simps t)
  have B: "fst (fh_cache_lookup ex_host 1 30 ?s) = None \<and>
      fh_cache (snd (fh_cache_lookup ex_host 1 30 ?s)) ! 0 = empty_slot \<and>
      fst (fh_decomp ex_host (ex_dir 0) ex_nfh ?s) \<noteq> Inr (Some ''/a/b/old'')"
    using fh_cache_lookup_validated [OF ex_cached_ok, of ex_host 1 30 "''/a/b/old''"] ex_nfh_cast
    by (simp add: ex_cached_index ex_cached_slot_0 ex_lstat_simps)
  from A B hit show ?thesis
    using ex_cached_ok ex_cached_index ex_nfh_cast
    by (simp add: ex_lstat_simps ex_cached_slot_0)
qed

lemma ex_decode_after_rename:
  "fst (fh_decomp ex_host (ex_dir 0) ex_nfh (ex_cached ''/a/b/old'')) = Inr (Some ''/a/b/c'')"
  by code_simp

lemma ex_ghost_first:
  "fh_decomp ex_odd (ex_dir 0) ex_ghost_nfh ex_globals = (Inr (Some ''/ghost''), ex_ghost_cached)"
  by code_simp

lemma ex_ghost_stale:
  "fh_cache_index ex_ghost_cached 0 0 = Some 0 \<and>
   c_path (fh_cache ex_ghost_cached ! 0) = ''/ghost'' \<and> lstat ex_odd ''/ghost'' = None \<and>
   fh_cache_lookup ex_odd 0 0 ex_ghost_cached = (None, fh_cache_inval 0 ex_ghost_cached)"
  by code_simp

lemma ex_ghost_second:
  "fst (fh_decomp ex_odd (ex_dir 0) ex_ghost_nfh ex_ghost_cached) = Inr (Some ''/ghost'')"
  by code_simp

lemma ex_root_first:
  "fh_decomp ex_host (ex_dir 0) ex_root_nfh ex_globals = (Inr (Some ''/''), ex_root_cached)"
  by code_simp

lemma ex_root_stale:
  "fh_cache_index ex_root_cached 1 30 = Some 0 \<and>
   c_path (fh_cache ex_root_cached ! 0) = ''/'' \<and> lstat ex_host ''/'' = Some (ex_dir 2) \<and>
   fh_cache_lookup ex_host 1 30 ex_root_cached = (None, fh_cache_inval 0 ex_root_cached)"
  by code_simp

lemma ex_root_second:
  "fst (fh_decomp ex_host (ex_dir 0) ex_root_nfh ex_root_cached) = Inr (Some ''/'')"
  by code_simp

text \<open>
  C9 as stated fails in its last part: a decode can return the path of a slot that the
  lookup has just cleared as stale. On the first tree the handle with the pair \<open>(0, 0)\<close>
  is decoded twice. The first decode caches \<open>/ghost\<close>, whose \<^verbatim>\<open>lstat\<close> fails; the second
  finds that slot, clears it as stale, and the scan that follows returns \<open>/ghost\<close> again.
  On the tree \<open>/a/b/c\<close> the handle of length 0 with the pair \<open>(1, 30)\<close> is decoded twice.
  The first decode caches \<open>/\<close>, whose \<^verbatim>\<open>lstat\<close> reports the pair \<open>(1, 2)\<close>; the second
  clears that slot as stale and returns \<open>/\<close> again.
\<close>

theorem fh_decomp_stale_counterexample:
  "(fh_decomp ex_odd (ex_dir 0) ex_ghost_nfh ex_globals = (Inr (Some ''/ghost''), ex_ghost_cached) \<and>
    fh_cache_index ex_ghost_cached 0 0 = Some 0 \<and>
    c_path (fh_cache ex_ghost_cached ! 0) = ''/ghost'' \<and>
    lstat ex_odd ''/ghost'' = None \<and>
    fh_cache_lookup ex_odd 0 0 ex_ghost_cached = (None, fh_cache_inval 0 ex_ghost_cached) \<and>
    fst (fh_decomp ex_odd (ex_dir 0) ex_ghost_nfh ex_ghost_cached) = Inr (Some ''/ghost'')) \<and>
   (fh_decomp ex_host (ex_dir 0) ex_root_nfh ex_globals = (Inr (Some ''/''), ex_root_cached) \<and>
    fh_cache_index ex_root_cached 1 30 = Some 0 \<and>
    c_path (fh_cache ex_root_cached ! 0) = ''/'' \<and>
    lstat ex_host ''/'' = Some (ex_dir 2) \<and>
    fh_cache_lookup ex_host 1 30 ex_root_cached = (None, fh_cache_inval 0 ex_root_cached) \<and>
    fst (fh_decomp ex_host (ex_dir 0) ex_root_nfh ex_root_cached) = Inr (Some ''/''))"
  using ex_ghost_first ex_ghost_stale ex_ghost_second ex_root_first ex_root_stale ex_root_second
  by blast

section \<open>The walk of the encoder along a path\<close>

lemma NUL_not_slash [simp]: "NUL \<noteq> CHR ''/''" "CHR ''/'' \<noteq> NUL"
  by (simp_all add: NUL_def)

lemma cstr_no_NUL: "NUL \<notin> set w \<Longrightarrow> cstr w = w"
  by (auto simp: cstr_def takeWhile_eq_all_conv)

lemma cstr_cut: "NUL \<notin> set u \<Longrightarrow> cstr (u @ NUL # v) = u"
  by (auto simp: cstr_def takeWhile_tail)

text \<open>
  \<^verbatim>\<open>strchr\<close> from the start of a name: it finds the slash that ends the name, or
  nothing when the name is the last one.
\<close>

lemma strchr_skip:
  "c \<notin> set mid \<Longrightarrow> NUL \<notin> set mid \<Longrightarrow>
   strchr (pre @ mid @ rest) (length pre) c = strchr (pre @ mid @ rest) (length pre + length mid) c"
proof (induction mid arbitrary: pre)
  case Nil
  show ?case by simp
next
  case (Cons x mid)
  have "strchr (pre @ (x # mid) @ rest) (length pre) c =
        strchr (pre @ (x # mid) @ rest) (Suc (length pre)) c"
    using Cons.prems by (subst strchr.simps) (auto simp: nth_append)
  also have "\<dots> = strchr ((pre @ [x]) @ mid @ rest) (length (pre @ [x])) c"
    by simp
  also have "\<dots> = strchr ((pre @ [x]) @ mid @ rest) (length (pre @ [x]) + length mid) c"
    using Cons.prems by (intro Cons.IH) auto
  finally show ?case by simp
qed

lemma strchr_end: "strchr w (length w) c = None"
  by (subst strchr.simps) simp

lemma strchr_here: "strchr (pre @ c # rest) (length pre) c = Some (length pre)"
  by (subst strchr.simps) (simp add: nth_append)

lemma path_of_take_Suc:
  "k < length ns \<Longrightarrow> path_of (take (Suc k) ns) = path_of (take k ns) @ CHR ''/'' # ns ! k"
  by (simp add: take_Suc_conv_app_nth)

lemma path_of_split:
  "k < length ns \<Longrightarrow>
   path_of ns = path_of (take k ns) @ CHR ''/'' # ns ! k @ path_of (drop (Suc k) ns)"
proof -
  assume "k < length ns"
  then have "ns = take k ns @ ns ! k # drop (Suc k) ns"
    by (simp add: id_take_nth_drop)
  then have "path_of ns = path_of (take k ns @ ns ! k # drop (Suc k) ns)" by simp
  then show ?thesis by simp
qed

lemma path_of_no_NUL: "\<forall>n \<in> set ns. NUL \<notin> set n \<Longrightarrow> NUL \<notin> set (path_of ns)"
  by (induction ns) auto

text \<open>
  One round of the loop on the path \<open>path_of ns\<close>, entered at the slash before the
  \<open>k\<close>-th name: the next slash is found (or not, at the last name), and the string
  handed to \<^verbatim>\<open>lstat\<close> is the prefix of \<open>k + 1\<close> names.
\<close>

lemma walk_step:
  assumes g: "good_names ns" and k: "k < length ns"
    and w: "work[length (path_of (take k ns)) := CHR ''/''] = path_of ns"
  defines "work1 \<equiv> work[length (path_of (take k ns)) := CHR ''/'']"
  defines "lasti' \<equiv> strchr work1 (Suc (length (path_of (take k ns)))) (CHR ''/'')"
  defines "work2 \<equiv> (case lasti' of None \<Rightarrow> work1 | Some l \<Rightarrow> work1[l := NUL])"
  shows "lasti' = (if Suc k < length ns then Some (length (path_of (take (Suc k) ns))) else None)"
    and "cstr work2 = path_of (take (Suc k) ns)"
    and "Suc k < length ns \<Longrightarrow> work2[length (path_of (take (Suc k) ns)) := CHR ''/''] = path_of ns"
proof -
  let ?pre = "path_of (take k ns) @ ''/''"
  let ?mid = "ns ! k"
  let ?rest = "path_of (drop (Suc k) ns)"
  have w1: "work1 = ?pre @ ?mid @ ?rest"
    unfolding work1_def w using path_of_split [OF k] by simp
  from g k have mid: "CHR ''/'' \<notin> set ?mid" "NUL \<notin> set ?mid"
    by (auto simp: good_names_def)
  have nn: "NUL \<notin> set (path_of ns)"
    using g by (intro path_of_no_NUL) (simp add: good_names_def)
  have l1: "lasti' = strchr (?pre @ ?mid @ ?rest) (length ?pre + length ?mid) (CHR ''/'')"
    unfolding lasti'_def w1 using strchr_skip [OF mid, of ?pre ?rest] by simp
  have tk: "path_of (take (Suc k) ns) = ?pre @ ?mid"
    using path_of_take_Suc [OF k] by simp
  show L: "lasti' = (if Suc k < length ns then Some (length (path_of (take (Suc k) ns))) else None)"
  proof (cases "Suc k < length ns")
    case True
    then have "drop (Suc k) ns = ns ! Suc k # drop (Suc (Suc k)) ns"
      by (simp add: Cons_nth_drop_Suc)
    then obtain r where r: "?rest = CHR ''/'' # r" by simp
    have "lasti' = strchr ((?pre @ ?mid) @ CHR ''/'' # r) (length (?pre @ ?mid)) (CHR ''/'')"
      unfolding l1 r by simp
    also have "\<dots> = Some (length (?pre @ ?mid))" by (rule strchr_here)
    finally show ?thesis using True tk by simp
  next
    case False
    with k have "?rest = []" by simp
    then have "lasti' = strchr (?pre @ ?mid) (length (?pre @ ?mid)) (CHR ''/'')"
      unfolding l1 by simp
    then show ?thesis using False by (simp only: strchr_end) simp
  qed
  show "cstr work2 = path_of (take (Suc k) ns)"
  proof (cases "Suc k < length ns")
    case True
    then have "drop (Suc k) ns = ns ! Suc k # drop (Suc (Suc k)) ns"
      by (simp add: Cons_nth_drop_Suc)
    then obtain r where r: "?rest = CHR ''/'' # r" by simp
    have "work2 = work1[length (?pre @ ?mid) := NUL]"
      unfolding work2_def using L True tk by simp
    also have "\<dots> = (?pre @ ?mid) @ NUL # r"
      unfolding w1 r by (simp add: list_update_append)
    finally have "work2 = (?pre @ ?mid) @ NUL # r" .
    moreover have "NUL \<notin> set (?pre @ ?mid)"
      using nn path_of_split [OF k] by auto
    ultimately show ?thesis using tk cstr_cut by metis
  next
    case False
    with k have all: "take (Suc k) ns = ns" by simp
    from False L have "work2 = work1" unfolding work2_def by simp
    then have "work2 = path_of ns" unfolding work1_def w .
    with nn all show ?thesis by (simp add: cstr_no_NUL)
  qed
  show "work2[length (path_of (take (Suc k) ns)) := CHR ''/''] = path_of ns" if "Suc k < length ns"
  proof -
    have "work2 = work1[length (path_of (take (Suc k) ns)) := NUL]"
      unfolding work2_def using L that by simp
    then have "work2[length (path_of (take (Suc k) ns)) := CHR ''/''] =
               work1[length (path_of (take (Suc k) ns)) := CHR ''/'']"
      by simp
    also have "\<dots> = path_of ns"
    proof -
      from that have "drop (Suc k) ns = ns ! Suc k # drop (Suc (Suc k)) ns"
        by (simp add: Cons_nth_drop_Suc)
      then obtain r where r: "?rest = CHR ''/'' # r" by simp
      have "work1 = (?pre @ ?mid) @ CHR ''/'' # r" unfolding w1 r by simp
      then have "work1[length (?pre @ ?mid) := CHR ''/''] = work1"
        by (simp add: list_update_append)
      then show ?thesis using tk w unfolding work1_def by simp
    qed
    finally show ?thesis .
  qed
qed

lemma fh_comp_loop_unfold:
  "work1 = work[lasti := CHR ''/''] \<Longrightarrow> lasti' = strchr work1 (Suc lasti) (CHR ''/'') \<Longrightarrow>
   work2 = (case lasti' of None \<Rightarrow> work1 | Some l \<Rightarrow> work1[l := NUL]) \<Longrightarrow>
   fh_comp_loop h work lasti pos fh =
     (case lstat h (cstr work2) of
        None \<Rightarrow> invalid_fh
      | Some buf \<Rightarrow>
          if lasti' \<noteq> None \<and> pos + 1 < FH_MAXLEN
          then fh_comp_loop h work2 (the lasti') (pos + 1)
                 (fh \<lparr> inos := (inos fh)[pos := FH_HASH (st_ino buf)] \<rparr>)
          else if lasti' \<noteq> None then invalid_fh
          else fh \<lparr> inos := (inos fh)[pos := FH_HASH (st_ino buf)], len := of_nat (pos + 1) \<rparr>)"
proof -
  assume a: "work1 = work[lasti := CHR ''/'']" "lasti' = strchr work1 (Suc lasti) (CHR ''/'')"
    "work2 = (case lasti' of None \<Rightarrow> work1 | Some l \<Rightarrow> work1[l := NUL])"
  show ?thesis
    unfolding a(3) a(2) a(1) by (subst fh_comp_loop.simps) (simp add: Let_def)
qed

text \<open>
  The loop entered at the \<open>k\<close>-th name of \<open>path_of ns\<close> runs to the last name, stores
  the hash of each prefix's inode at the prefix's index and sets the length to the
  number of names.
\<close>

lemma fh_comp_loop_walk:
  assumes g: "good_names ns" and n: "length ns \<le> FH_MAXLEN"
    and ex: "\<forall>j. 0 < j \<and> j \<le> length ns \<longrightarrow> lstat h (path_of (take j ns)) \<noteq> None"
  shows "k < length ns \<Longrightarrow> work[length (path_of (take k ns)) := CHR ''/''] = path_of ns \<Longrightarrow>
     length (inos fh) = FH_MAXLEN \<Longrightarrow>
     \<exists>xs. fh_comp_loop h work (length (path_of (take k ns))) k fh =
            fh \<lparr> inos := xs, len := of_nat (length ns) \<rparr> \<and>
          length xs = FH_MAXLEN \<and>
          (\<forall>j. k \<le> j \<and> j < length ns \<longrightarrow>
             xs ! j = FH_HASH (st_ino (the (lstat h (path_of (take (Suc j) ns)))))) \<and>
          (\<forall>j < k. xs ! j = inos fh ! j)"
proof (induction m \<equiv> "length ns - Suc k" arbitrary: k work fh)
  case 0
  then have last: "Suc k = length ns" by simp
  let ?o = "length (path_of (take k ns))"
  define work1 where "work1 = work[?o := CHR ''/'']"
  define lasti' where "lasti' = strchr work1 (Suc ?o) (CHR ''/'')"
  define work2 where "work2 = (case lasti' of None \<Rightarrow> work1 | Some l \<Rightarrow> work1[l := NUL])"
  note ws = walk_step [OF g "0.prems"(1,2), folded work1_def, folded lasti'_def, folded work2_def]
  from ws(1) last have L: "lasti' = None" by simp
  from ex last have "lstat h (path_of (take (Suc k) ns)) \<noteq> None"
    by (metis le_refl zero_less_Suc)
  then obtain st where st: "lstat h (path_of (take (Suc k) ns)) = Some st"
    by (meson not_None_eq)
  have unf: "fh_comp_loop h work ?o k fh =
      fh \<lparr> inos := (inos fh)[k := FH_HASH (st_ino st)], len := of_nat (Suc k) \<rparr>"
    by (subst fh_comp_loop_unfold [OF work1_def lasti'_def work2_def]) (simp add: ws(2) st L)
  have kl: "k < length (inos fh)" using "0.prems" n by simp
  have only: "\<forall>j. k \<le> j \<and> j < length ns \<longrightarrow> j = k" using last by auto
  have "(inos fh)[k := FH_HASH (st_ino st)] ! k =
        FH_HASH (st_ino (the (lstat h (path_of (take (Suc k) ns)))))"
    using kl st by simp
  with only have "\<forall>j. k \<le> j \<and> j < length ns \<longrightarrow> (inos fh)[k := FH_HASH (st_ino st)] ! j =
        FH_HASH (st_ino (the (lstat h (path_of (take (Suc j) ns)))))"
    by blast
  moreover have "\<forall>j < k. (inos fh)[k := FH_HASH (st_ino st)] ! j = inos fh ! j" by simp
  moreover have "length ((inos fh)[k := FH_HASH (st_ino st)]) = FH_MAXLEN"
    using "0.prems"(3) by simp
  moreover have "fh_comp_loop h work ?o k fh =
      fh \<lparr> inos := (inos fh)[k := FH_HASH (st_ino st)], len := of_nat (length ns) \<rparr>"
    using unf last by simp
  ultimately show ?case by blast
next
  case (Suc m)
  then have more: "Suc k < length ns" and m: "m = length ns - Suc (Suc k)" by simp_all
  let ?o = "length (path_of (take k ns))"
  let ?o' = "length (path_of (take (Suc k) ns))"
  define work1 where "work1 = work[?o := CHR ''/'']"
  define lasti' where "lasti' = strchr work1 (Suc ?o) (CHR ''/'')"
  define work2 where "work2 = (case lasti' of None \<Rightarrow> work1 | Some l \<Rightarrow> work1[l := NUL])"
  note ws = walk_step [OF g Suc.prems(1,2), folded work1_def, folded lasti'_def, folded work2_def]
  from ws(1) more have L: "lasti' = Some ?o'" by simp
  from ex more have "lstat h (path_of (take (Suc k) ns)) \<noteq> None"
    by (metis less_imp_le zero_less_Suc)
  then obtain st where st: "lstat h (path_of (take (Suc k) ns)) = Some st"
    by (meson not_None_eq)
  define fh' where "fh' = fh \<lparr> inos := (inos fh)[k := FH_HASH (st_ino st)] \<rparr>"
  from more n have "Suc k < FH_MAXLEN" by simp
  then have unf: "fh_comp_loop h work ?o k fh = fh_comp_loop h work2 ?o' (Suc k) fh'"
    by (subst fh_comp_loop_unfold [OF work1_def lasti'_def work2_def])
       (simp add: ws(2) st L fh'_def)
  have l': "length (inos fh') = FH_MAXLEN" using Suc.prems(3) by (simp add: fh'_def)
  from Suc.hyps(1) [OF m more ws(3) [OF more] l']
  obtain xs where xs: "fh_comp_loop h work2 ?o' (Suc k) fh' = fh' \<lparr> inos := xs, len := of_nat (length ns) \<rparr>"
      "length xs = FH_MAXLEN"
      "\<forall>j. Suc k \<le> j \<and> j < length ns \<longrightarrow>
             xs ! j = FH_HASH (st_ino (the (lstat h (path_of (take (Suc j) ns)))))"
      "\<forall>j < Suc k. xs ! j = inos fh' ! j"
    by blast
  have kl: "k < length (inos fh)" using more n Suc.prems(3) by simp
  have atk: "xs ! k = FH_HASH (st_ino (the (lstat h (path_of (take (Suc k) ns)))))"
    using xs(4) kl by (simp add: fh'_def st)
  have below: "\<forall>j < k. xs ! j = inos fh ! j"
    using xs(4) by (simp add: fh'_def)
  have from_k: "\<forall>j. k \<le> j \<and> j < length ns \<longrightarrow>
             xs ! j = FH_HASH (st_ino (the (lstat h (path_of (take (Suc j) ns)))))"
  proof (intro allI impI)
    fix j assume "k \<le> j \<and> j < length ns"
    then consider "j = k" | "Suc k \<le> j \<and> j < length ns" by linarith
    then show "xs ! j = FH_HASH (st_ino (the (lstat h (path_of (take (Suc j) ns)))))"
      using atk xs(3) by cases auto
  qed
  have "fh_comp_loop h work ?o k fh = fh \<lparr> inos := xs, len := of_nat (length ns) \<rparr>"
    unfolding unf xs(1) by (simp add: fh'_def)
  with xs(2) from_k below show ?case by blast
qed

lemma path_of_not_root: "good_names ns \<Longrightarrow> path_of ns \<noteq> ''/''"
  by (cases ns) (auto simp: good_names_def)

lemma path_of_starts: "ns \<noteq> [] \<Longrightarrow> (path_of ns)[0 := CHR ''/''] = path_of ns"
  by (cases ns) simp_all

lemma path_of_not_empty: "ns \<noteq> [] \<Longrightarrow> path_of ns \<noteq> []"
  by (cases ns) simp_all

text \<open>\<open>fh_comp_raw\<close> on a path of names whose prefixes all exist.\<close>

lemma fh_comp_raw_walk:
  assumes g: "good_names ns" and ne: "ns \<noteq> []" and n: "length ns \<le> FH_MAXLEN"
    and li: "length (inos ufh) = FH_MAXLEN"
    and fit: "length (path_of ns) < NFS_MAXPATHLEN h"
    and ex: "\<forall>j. 0 < j \<and> j \<le> length ns \<longrightarrow> lstat h (path_of (take j ns)) \<noteq> None"
    and st: "lstat h (path_of ns) = Some st"
  shows "\<exists>xs. fh_comp_raw h ufh (path_of ns) 0 =
           Inr (ufh \<lparr> dev := ucast (st_dev st), ino := ucast (st_ino st),
                      gen := get_gen h st FD_NONE (path_of ns),
                      inos := xs, len := of_nat (length ns) \<rparr>) \<and>
         length xs = FH_MAXLEN \<and>
         (\<forall>j < length ns. xs ! j = FH_HASH (st_ino (the (lstat h (path_of (take (Suc j) ns))))))"
proof -
  define fh where "fh = ufh \<lparr> dev := ucast (st_dev st), ino := ucast (st_ino st),
                               gen := get_gen h st FD_NONE (path_of ns) \<rparr>"
  have raw: "fh_comp_raw h ufh (path_of ns) 0 = Inr (fh_comp_loop h (path_of ns) 0 0 fh)"
    using st fit path_of_not_root [OF g] by (simp add: fh_comp_raw_def fh_def)
  from ne have k: "0 < length ns" by simp
  have w: "(path_of ns)[length (path_of (take 0 ns)) := CHR ''/''] = path_of ns"
    using path_of_starts [OF ne] by simp
  have l: "length (inos fh) = FH_MAXLEN" using li by (simp add: fh_def)
  from fh_comp_loop_walk [OF g n ex k w l]
  obtain xs where xs: "fh_comp_loop h (path_of ns) 0 0 fh = fh \<lparr> inos := xs, len := of_nat (length ns) \<rparr>"
      "length xs = FH_MAXLEN"
      "\<forall>j. 0 \<le> j \<and> j < length ns \<longrightarrow>
         xs ! j = FH_HASH (st_ino (the (lstat h (path_of (take (Suc j) ns)))))"
    by auto
  from raw xs(1) have "fh_comp_raw h ufh (path_of ns) 0 =
           Inr (ufh \<lparr> dev := ucast (st_dev st), ino := ucast (st_ino st),
                      gen := get_gen h st FD_NONE (path_of ns),
                      inos := xs, len := of_nat (length ns) \<rparr>)"
    by (simp add: fh_def)
  with xs(2,3) show ?thesis by blast
qed

lemma unat_len_of_nat: "n \<le> FH_MAXLEN \<Longrightarrow> unat (of_nat n :: uchar) = n"
  by (simp add: FH_MAXLEN_def unat_of_nat)

text \<open>
  C2, as the code has it: the trail covers every name of the path, the object's own
  included. For a path \<open>/n1/.../nk\<close> of at most \<open>FH_MAXLEN\<close> names, shorter than
  \<open>NFS_MAXPATHLEN\<close> characters so that it fits the work buffer, whose prefixes all exist,
  \<open>fh_comp_raw\<close> returns a handle with the device and inode of the object truncated to 32
  bits, the generation of the object, the length \<open>k\<close>, and at index \<open>j\<close> of the trail the
  hash \<open>(n + 3 * (n >> 8) + 5 * (n >> 16)) mod 256\<close> of the inode \<open>n\<close> of
  \<open>/n1/.../n(j+1)\<close>; the last entry is the hash of the object's own inode.
\<close>

theorem fh_comp_raw_trail:
  assumes "good_names ns" and "ns \<noteq> []" and "length ns \<le> FH_MAXLEN"
    and "length (inos ufh) = FH_MAXLEN"
    and "length (path_of ns) < NFS_MAXPATHLEN h"
    and "\<forall>j. 0 < j \<and> j \<le> length ns \<longrightarrow> lstat h (path_of (take j ns)) \<noteq> None"
  shows "\<exists>st fh. lstat h (path_of ns) = Some st \<and>
           fh_comp_raw h ufh (path_of ns) 0 = Inr fh \<and>
           dev fh = ucast (st_dev st) \<and>
           ino fh = ucast (st_ino st) \<and>
           gen fh = get_gen h st FD_NONE (path_of ns) \<and>
           unat (len fh) = length ns \<and>
           (\<forall>j < length ns. unat (inos fh ! j) =
              spec_h (unat (st_ino (the (lstat h (path_of (take (Suc j) ns))))))) \<and>
           unat (inos fh ! (length ns - 1)) = spec_h (unat (st_ino st))"
proof -
  from assms(2) have "0 < length ns \<and> length ns \<le> length ns" by simp
  with assms(6) have "lstat h (path_of (take (length ns) ns)) \<noteq> None" by blast
  then obtain st where st: "lstat h (path_of ns) = Some st" by auto
  from fh_comp_raw_walk [OF assms st]
  obtain xs where xs: "fh_comp_raw h ufh (path_of ns) 0 =
           Inr (ufh \<lparr> dev := ucast (st_dev st), ino := ucast (st_ino st),
                      gen := get_gen h st FD_NONE (path_of ns),
                      inos := xs, len := of_nat (length ns) \<rparr>)"
      "\<forall>j < length ns. xs ! j = FH_HASH (st_ino (the (lstat h (path_of (take (Suc j) ns)))))"
    by blast
  from xs(2) have hs: "\<forall>j < length ns. unat (xs ! j) =
      spec_h (unat (st_ino (the (lstat h (path_of (take (Suc j) ns))))))"
    by (simp add: FH_HASH_spec_h_64)
  from assms(2) have "length ns - 1 < length ns" "Suc (length ns - 1) = length ns" by simp_all
  with hs have "unat (xs ! (length ns - 1)) =
      spec_h (unat (st_ino (the (lstat h (path_of (take (length ns) ns))))))"
    by metis
  then have lastx: "unat (xs ! (length ns - 1)) = spec_h (unat (st_ino st))" using st by simp
  show ?thesis
    using st xs(1) hs lastx unat_len_of_nat [OF assms(3)]
    by (intro exI [of _ st] exI [of _ "ufh \<lparr> dev := ucast (st_dev st), ino := ucast (st_ino st),
                      gen := get_gen h st FD_NONE (path_of ns),
                      inos := xs, len := of_nat (length ns) \<rparr>"]) simp
qed

lemma ex_odd_names_good: "good_names [''d'', ''f'']"
  by (simp add: good_names_def NUL_def)

lemma ex_odd_lstat_simps:
  "lstat ex_odd (path_of [''d'']) = Some (ex_dir 0xABCDEF)"
  "lstat ex_odd (path_of [''d'', ''f'']) = Some (ex_file 0x12345)"
  by (simp_all add: lstat_def ex_odd_def ex_odd_lstat_def)

lemma ex_odd_prefixes:
  "\<forall>j. 0 < j \<and> j \<le> length [''d'', ''f''] \<longrightarrow>
       lstat ex_odd (path_of (take j [''d'', ''f''])) \<noteq> None"
proof (intro allI impI)
  fix j :: nat assume "0 < j \<and> j \<le> length [''d'', ''f'']"
  then consider "j = 1" | "j = 2" by (simp add: le_Suc_eq) linarith
  then show "lstat ex_odd (path_of (take j [''d'', ''f''])) \<noteq> None"
    using ex_odd_lstat_simps by cases (simp_all add: numeral_2_eq_2)
qed

lemma spec_h_values:
  "spec_h 10 = 10" "spec_h 20 = 20" "spec_h 30 = 30" "spec_h 0xABCDEF = 173" "spec_h 0x12345 = 179"
  by (simp_all add: spec_h_def drop_bit_eq_div)

lemma ex_odd_inos:
  "unat (st_ino (ex_dir 0xABCDEF)) = 0xABCDEF" "unat (st_ino (ex_file 0x12345)) = 0x12345"
  "(ucast (st_dev (ex_file 0x12345)) :: uint32) = 1"
  "(ucast (st_ino (ex_file 0x12345)) :: uint32) = 0x12345"
  by (simp_all add: ex_dir_def ex_file_def)

theorem fh_comp_raw_trail_witness:
  "good_names [''d'', ''f''] \<and> length [''d'', ''f''] \<le> FH_MAXLEN \<and>
   length (inos ex_ufh) = FH_MAXLEN \<and>
   length (path_of [''d'', ''f'']) < NFS_MAXPATHLEN ex_odd \<and>
   lstat ex_odd (path_of [''d'']) = Some (ex_dir 0xABCDEF) \<and>
   lstat ex_odd (path_of [''d'', ''f'']) = Some (ex_file 0x12345) \<and>
   (\<exists>fh. fh_comp_raw ex_odd ex_ufh (path_of [''d'', ''f'']) 0 = Inr fh \<and>
      dev fh = 1 \<and> ino fh = 0x12345 \<and> unat (len fh) = 2 \<and>
      unat (inos fh ! 0) = 173 \<and> unat (inos fh ! 1) = 179)"
proof -
  have l: "length [''d'', ''f''] \<le> FH_MAXLEN" "length (inos ex_ufh) = FH_MAXLEN"
    by (simp_all add: FH_MAXLEN_def ex_ufh_def)
  have ne: "[''d'', ''f''] \<noteq> []" by simp
  have fit: "length (path_of [''d'', ''f'']) < NFS_MAXPATHLEN ex_odd"
    by (simp add: ex_odd_def)
  from fh_comp_raw_trail [OF ex_odd_names_good ne l fit ex_odd_prefixes]
  obtain st fh where a: "lstat ex_odd (path_of [''d'', ''f'']) = Some st"
      "fh_comp_raw ex_odd ex_ufh (path_of [''d'', ''f'']) 0 = Inr fh"
      "dev fh = ucast (st_dev st)" "ino fh = ucast (st_ino st)"
      "unat (len fh) = length [''d'', ''f'']"
      "\<forall>j < length [''d'', ''f'']. unat (inos fh ! j) =
         spec_h (unat (st_ino (the (lstat ex_odd (path_of (take (Suc j) [''d'', ''f'']))))))"
    by blast
  from a(1) have st: "st = ex_file 0x12345" by (simp only: ex_odd_lstat_simps option.inject)
  have t: "take (Suc 0) [''d'', ''f''] = [''d'']" "take (Suc 1) [''d'', ''f''] = [''d'', ''f'']"
    by simp_all
  have "(0::nat) < length [''d'', ''f'']" by simp
  with a(6) have "unat (inos fh ! 0) =
      spec_h (unat (st_ino (the (lstat ex_odd (path_of (take (Suc 0) [''d'', ''f'']))))))"
    by blast
  then have i0: "unat (inos fh ! 0) = 173"
    by (simp only: t ex_odd_lstat_simps option.sel ex_odd_inos spec_h_values)
  have "(1::nat) < length [''d'', ''f'']" by simp
  with a(6) have "unat (inos fh ! 1) =
      spec_h (unat (st_ino (the (lstat ex_odd (path_of (take (Suc 1) [''d'', ''f'']))))))"
    by blast
  then have i1: "unat (inos fh ! 1) = 179"
    by (simp only: t ex_odd_lstat_simps option.sel ex_odd_inos spec_h_values)
  from a(3,4) have di: "dev fh = 1" "ino fh = 0x12345"
    by (simp_all only: st ex_odd_inos)
  from a(5) have ln: "unat (len fh) = 2" by simp
  from a(2) di ln i0 i1 have "\<exists>fh. fh_comp_raw ex_odd ex_ufh (path_of [''d'', ''f'']) 0 = Inr fh \<and>
      dev fh = 1 \<and> ino fh = 0x12345 \<and> unat (len fh) = 2 \<and>
      unat (inos fh ! 0) = 173 \<and> unat (inos fh ! 1) = 179"
    by blast
  with ex_odd_names_good l fit ex_odd_lstat_simps show ?thesis by blast
qed

text \<open>
  C2 as stated fails on its own example: for the tree \<open>/a/b/c\<close> with the inodes 10, 20
  and 30 the handle has length 3, not 2, and its trail ends with the hash of 30, the
  object's own inode.
\<close>

theorem fh_comp_raw_trail_counterexample:
  "fh_comp_raw ex_host ex_ufh ''/a/b/c'' 0 = Inr ex_S1_fh \<and>
   unat (len ex_S1_fh) = 3 \<and>
   unat (len ex_S1_fh) \<noteq> 2 \<and>
   map unat (take 3 (inos ex_S1_fh)) = [spec_h 10, spec_h 20, spec_h 30] \<and>
   dev ex_S1_fh = 1 \<and>
   ino ex_S1_fh = 30"
  by (simp add: ex_S1_handle ex_S1_fh_def spec_h_values)

lemma ex_names_good: "good_names [''a'', ''b'', ''c'']"
  by (simp add: good_names_def NUL_def)

lemma ex_prefixes:
  "\<forall>j. 0 < j \<and> j \<le> length [''a'', ''b'', ''c''] \<longrightarrow>
       lstat ex_host (path_of (take j [''a'', ''b'', ''c''])) \<noteq> None"
proof (intro allI impI)
  fix j :: nat assume "0 < j \<and> j \<le> length [''a'', ''b'', ''c'']"
  then consider "j = 1" | "j = 2" | "j = 3" by (simp add: le_Suc_eq) linarith
  then show "lstat ex_host (path_of (take j [''a'', ''b'', ''c''])) \<noteq> None"
    by cases (simp_all add: lstat_def ex_host_def ex_lstat_def numeral_2_eq_2 numeral_3_eq_3)
qed

section \<open>Completeness of the directory scan along a path\<close>

lemma ucast_len_of_nat:
  "n \<le> FH_MAXLEN \<Longrightarrow> (ucast (of_nat n :: uchar) :: 32 word) = of_nat n"
  by (metis of_nat_unat unat_len_of_nat)

lemma unat_pos_of_nat: "j \<le> FH_MAXLEN \<Longrightarrow> unat (of_nat j :: 32 word) = j"
  by (simp add: FH_MAXLEN_def unat_of_nat)

lemma pos_of_nat_neq:
  assumes "j < n" "n \<le> FH_MAXLEN"
  shows "(of_nat j :: 32 word) \<noteq> of_nat n"
proof
  assume "(of_nat j :: 32 word) = of_nat n"
  then have "unat (of_nat j :: 32 word) = unat (of_nat n :: 32 word)" by simp
  with assms show False by (simp add: unat_pos_of_nat)
qed

text \<open>
  The directory loop does not come back empty-handed when one of the entries either is
  the object or is a directory with the right hash in which the search succeeds.
\<close>

lemma fh_rec_entries_finds:
  assumes "e \<in> set es" and "length lead + length e + 1 < NFS_MAXPATHLEN h"
    and "scan_id h (lead @ ''/'' @ e) = fh_id fh \<or>
         (e \<noteq> ''..'' \<and> e \<noteq> ''.'' \<and>
          FH_HASH (snd (scan_id h (lead @ ''/'' @ e))) = inos fh ! unat pos \<and>
          fh_rec h ubuf fh (pos + 1) (lead @ ''/'' @ e) \<noteq> None)"
  shows "fh_rec_entries h ubuf fh pos lead buf es \<noteq> None"
  using assms(1)
proof (induction es arbitrary: buf)
  case Nil
  then show ?case by simp
next
  case (Cons d rest)
  show ?case
  proof (cases "length lead + length d + 1 < NFS_MAXPATHLEN h")
    case False
    with assms(2) have "d \<noteq> e" by auto
    with Cons.prems have "e \<in> set rest" by simp
    from Cons.IH [OF this] False show ?thesis by (simp add: fh_rec_entries_skip)
  next
    case True
    define buf1 where "buf1 = (case lstat h (lead @ ''/'' @ d) of None \<Rightarrow> buf \<lparr> st_dev := 0, st_ino := 0 \<rparr> | Some b \<Rightarrow> b)"
    have id: "(st_dev buf1, st_ino buf1) = scan_id h (lead @ ''/'' @ d)"
      using buf1_def by (rule scanned_id)
    show ?thesis
    proof (cases "st_dev buf1 = ucast (dev fh) \<and> st_ino buf1 = ucast (ino fh)")
      case found: True
      show ?thesis
        using fh_rec_entries_found [OF True buf1_def found, of ubuf pos rest] by simp
    next
      case nf: False
      then have nf': "(st_dev buf1, st_ino buf1) \<noteq> fh_id fh" by (simp add: fh_id_def)
      show ?thesis
      proof (cases "d \<noteq> ''..'' \<and> d \<noteq> ''.'' \<and> FH_HASH (st_ino buf1) = inos fh ! unat pos")
        case desc: True
        note step = fh_rec_entries_descend [OF True buf1_def nf desc, of ubuf rest]
        show ?thesis
        proof (cases "fh_rec h ubuf fh (pos + 1) (lead @ ''/'' @ d)")
          case (Some r)
          with step show ?thesis by simp
        next
          case None
          with assms(3) id nf' have "d \<noteq> e" by metis
          with Cons.prems have "e \<in> set rest" by simp
          from Cons.IH [OF this] None step show ?thesis by simp
        qed
      next
        case nodesc: False
        have "d \<noteq> e"
        proof
          assume "d = e"
          with assms(3) id nf' have "e \<noteq> ''..'' \<and> e \<noteq> ''.'' \<and>
              FH_HASH (snd (scan_id h (lead @ ''/'' @ e))) = inos fh ! unat pos"
            by metis
          moreover from id \<open>d = e\<close> have "snd (scan_id h (lead @ ''/'' @ e)) = st_ino buf1"
            by (metis snd_conv)
          ultimately show False using nodesc \<open>d = e\<close> by simp
        qed
        with Cons.prems have "e \<in> set rest" by simp
        from Cons.IH [OF this] fh_rec_entries_pass [OF True buf1_def nf nodesc, of ubuf rest]
        show ?thesis by simp
      qed
    qed
  qed
qed

lemma path_of_take_length: "length (path_of (take k ns)) \<le> length (path_of ns)"
proof -
  have "path_of ns = path_of (take k ns @ drop k ns)" by simp
  then have "path_of ns = path_of (take k ns) @ path_of (drop k ns)"
    by (simp only: path_of_simps)
  then have "length (path_of ns) = length (path_of (take k ns)) + length (path_of (drop k ns))"
    by (metis length_append)
  then show ?thesis by simp
qed

text \<open>
  With the trail that \<open>fh_comp_raw\<close> writes, the scan descends along the path itself:
  from each directory of the path, entered at its own depth, the search succeeds.
\<close>

lemma fh_rec_reaches:
  assumes n: "length ns \<le> FH_MAXLEN"
    and dots: "\<forall>n \<in> set ns. n \<noteq> ''.'' \<and> n \<noteq> ''..''"
    and ex: "\<forall>j. 0 < j \<and> j \<le> length ns \<longrightarrow>
               lstat h (path_of (take j ns)) \<noteq> None \<and>
               lstat h (CHR ''/'' # path_of (take j ns)) = lstat h (path_of (take j ns))"
    and listed: "\<forall>j < length ns. \<exists>es. readdir h (CHR ''/'' # path_of (take j ns)) = Some es \<and> ns ! j \<in> set es"
    and short: "length (path_of ns) + 1 < NFS_MAXPATHLEN h"
    and lenfh: "len fh = of_nat (length ns)"
    and tr: "\<forall>j < length ns. inos fh ! j = FH_HASH (st_ino (the (lstat h (path_of (take (Suc j) ns)))))"
    and tgt: "scan_id h (path_of ns) = fh_id fh"
  shows "j < length ns \<Longrightarrow> fh_rec h ubuf fh (of_nat j) (CHR ''/'' # path_of (take j ns)) \<noteq> None"
proof (induction m \<equiv> "length ns - Suc j" arbitrary: j)
  case 0
  then have last: "Suc j = length ns" by simp
  let ?lead = "CHR ''/'' # path_of (take j ns)"
  let ?e = "ns ! j"
  from listed "0.prems" obtain es where rd: "readdir h ?lead = Some es" and mem: "?e \<in> set es"
    by blast
  have obj: "?lead @ ''/'' @ ?e = CHR ''/'' # path_of (take (Suc j) ns)"
    using path_of_take_Suc [OF "0.prems"] by simp
  have "length ?lead + length ?e + 1 = length (path_of (take (Suc j) ns)) + 1"
    using path_of_take_Suc [OF "0.prems"] by simp
  with short path_of_take_length [of "Suc j" ns]
  have guard: "length ?lead + length ?e + 1 < NFS_MAXPATHLEN h" by linarith
  from ex last have "lstat h (CHR ''/'' # path_of (take (Suc j) ns)) = lstat h (path_of (take (Suc j) ns))"
    by (metis le_refl zero_less_Suc)
  then have "scan_id h (?lead @ ''/'' @ ?e) = scan_id h (path_of (take (Suc j) ns))"
    unfolding obj by (simp add: scan_id_def)
  with last tgt have hit: "scan_id h (?lead @ ''/'' @ ?e) = fh_id fh" by simp
  from fh_rec_entries_finds [OF mem guard, of fh "of_nat j" ubuf ubuf] hit
  have "fh_rec_entries h ubuf fh (of_nat j) ?lead ubuf es \<noteq> None" by blast
  moreover have "(of_nat j :: 32 word) \<noteq> ucast (len fh)"
    using pos_of_nat_neq [OF "0.prems" n] by (simp add: lenfh ucast_len_of_nat [OF n])
  ultimately show ?case
    using rd by (subst fh_rec.simps) simp
next
  case (Suc m)
  then have more: "Suc j < length ns" and m: "m = length ns - Suc (Suc j)" by simp_all
  let ?lead = "CHR ''/'' # path_of (take j ns)"
  let ?e = "ns ! j"
  from listed Suc.prems obtain es where rd: "readdir h ?lead = Some es" and mem: "?e \<in> set es"
    by blast
  have obj: "?lead @ ''/'' @ ?e = CHR ''/'' # path_of (take (Suc j) ns)"
    using path_of_take_Suc [OF Suc.prems] by simp
  have "length ?lead + length ?e + 1 = length (path_of (take (Suc j) ns)) + 1"
    using path_of_take_Suc [OF Suc.prems] by simp
  with short path_of_take_length [of "Suc j" ns]
  have guard: "length ?lead + length ?e + 1 < NFS_MAXPATHLEN h" by linarith
  from ex more have e1: "lstat h (path_of (take (Suc j) ns)) \<noteq> None"
    and e2: "lstat h (CHR ''/'' # path_of (take (Suc j) ns)) = lstat h (path_of (take (Suc j) ns))"
    by (metis less_imp_le zero_less_Suc)+
  from e1 obtain s where s: "lstat h (path_of (take (Suc j) ns)) = Some s"
    by (meson not_None_eq)
  have "snd (scan_id h (?lead @ ''/'' @ ?e)) = st_ino s"
    unfolding obj by (simp add: scan_id_def e2 s)
  moreover from tr Suc.prems have "inos fh ! j = FH_HASH (st_ino s)"
    by (simp add: s)
  moreover have "unat (of_nat j :: 32 word) = j"
    using Suc.prems n by (intro unat_pos_of_nat) simp
  ultimately have hash: "FH_HASH (snd (scan_id h (?lead @ ''/'' @ ?e))) = inos fh ! unat (of_nat j :: 32 word)"
    by simp
  from Suc.hyps(1) [OF m more]
  have "fh_rec h ubuf fh (of_nat j + 1) (?lead @ ''/'' @ ?e) \<noteq> None"
    unfolding obj by (simp add: add.commute)
  moreover from dots Suc.prems have "?e \<noteq> ''..'' \<and> ?e \<noteq> ''.''"
    by (metis nth_mem)
  ultimately have "?e \<noteq> ''..'' \<and> ?e \<noteq> ''.'' \<and>
      FH_HASH (snd (scan_id h (?lead @ ''/'' @ ?e))) = inos fh ! unat (of_nat j :: 32 word) \<and>
      fh_rec h ubuf fh (of_nat j + 1) (?lead @ ''/'' @ ?e) \<noteq> None"
    using hash by blast
  with fh_rec_entries_finds [OF mem guard, of fh "of_nat j" ubuf ubuf]
  have "fh_rec_entries h ubuf fh (of_nat j) ?lead ubuf es \<noteq> None" by blast
  moreover have "(of_nat j :: 32 word) \<noteq> ucast (len fh)"
    using pos_of_nat_neq [OF Suc.prems n] by (simp add: lenfh ucast_len_of_nat [OF n])
  ultimately show ?case
    using rd by (subst fh_rec.simps) simp
qed

section \<open>Round trip\<close>


lemma ex_prefixes_slash:
  "\<forall>j. 0 < j \<and> j \<le> length [''a'', ''b'', ''c''] \<longrightarrow>
       lstat ex_host (path_of (take j [''a'', ''b'', ''c''])) \<noteq> None \<and>
       lstat ex_host (CHR ''/'' # path_of (take j [''a'', ''b'', ''c''])) =
         lstat ex_host (path_of (take j [''a'', ''b'', ''c'']))"
proof (intro allI impI)
  fix j :: nat assume "0 < j \<and> j \<le> length [''a'', ''b'', ''c'']"
  then consider "j = 1" | "j = 2" | "j = 3" by (simp add: le_Suc_eq) linarith
  then show "lstat ex_host (path_of (take j [''a'', ''b'', ''c''])) \<noteq> None \<and>
       lstat ex_host (CHR ''/'' # path_of (take j [''a'', ''b'', ''c''])) =
         lstat ex_host (path_of (take j [''a'', ''b'', ''c'']))"
    by cases (simp_all add: lstat_def ex_host_def ex_lstat_def numeral_2_eq_2 numeral_3_eq_3)
qed

lemma ex_listed:
  "\<forall>j < length [''a'', ''b'', ''c'']. \<exists>es.
      readdir ex_host (CHR ''/'' # path_of (take j [''a'', ''b'', ''c''])) = Some es \<and>
      [''a'', ''b'', ''c''] ! j \<in> set es"
proof (intro allI impI)
  fix j :: nat assume "j < length [''a'', ''b'', ''c'']"
  then consider "j = 0" | "j = 1" | "j = 2" by (simp add: less_Suc_eq) linarith
  then show "\<exists>es. readdir ex_host (CHR ''/'' # path_of (take j [''a'', ''b'', ''c''])) = Some es \<and>
      [''a'', ''b'', ''c''] ! j \<in> set es"
    by cases (simp_all add: readdir_def ex_host_def ex_readdir_def numeral_2_eq_2)
qed

lemma ex_target: "scan_id ex_host (path_of [''a'', ''b'', ''c'']) = (1, 30)"
  by (simp add: scan_id_def lstat_def ex_host_def ex_lstat_def ex_file_def)

lemma ex_unique:
  "\<forall>lead es e. examined ex_host (scan_id ex_host (path_of [''a'', ''b'', ''c''])) lead \<and>
      readdir ex_host lead = Some es \<and> e \<in> set es \<and>
      scan_id ex_host (lead @ ''/'' @ e) = scan_id ex_host (path_of [''a'', ''b'', ''c'']) \<longrightarrow>
      lead @ ''/'' @ e = CHR ''/'' # path_of [''a'', ''b'', ''c'']"
proof (intro allI impI)
  fix lead es e
  assume a: "examined ex_host (scan_id ex_host (path_of [''a'', ''b'', ''c''])) lead \<and>
      readdir ex_host lead = Some es \<and> e \<in> set es \<and>
      scan_id ex_host (lead @ ''/'' @ e) = scan_id ex_host (path_of [''a'', ''b'', ''c''])"
  then have mem: "e \<in> set es" by simp
  from a have id: "scan_id ex_host (lead @ ''/'' @ e) = (1, 30)"
    using ex_target by simp
  from a have "readdir ex_host lead = Some es" by simp
  then have rd: "ex_readdir lead = Some es"
    by (simp add: readdir_def ex_host_def)
  from rd consider "lead = ''/''" "es = [''.'', ''..'', ''a'']"
    | "lead = ''//a''" "es = [''.'', ''..'', ''b'']"
    | "lead = ''//a/b''" "es = [''.'', ''..'', ''c'']"
    by (auto simp: ex_readdir_def split: if_splits)
  then show "lead @ ''/'' @ e = CHR ''/'' # path_of [''a'', ''b'', ''c'']"
  proof cases
    case 1
    with mem id show ?thesis
      by (auto simp: scan_id_def lstat_def ex_host_def ex_lstat_def ex_dir_def)
  next
    case 2
    with mem id show ?thesis
      by (auto simp: scan_id_def lstat_def ex_host_def ex_lstat_def ex_dir_def)
  next
    case 3
    with mem id show ?thesis
      by (auto simp: scan_id_def lstat_def ex_host_def ex_lstat_def ex_dir_def)
  qed
qed

lemma ex_target_fits:
  "fits_uint32 (fst (scan_id ex_host (path_of [''a'', ''b'', ''c''])))"
  "fits_uint32 (snd (scan_id ex_host (path_of [''a'', ''b'', ''c''])))"
  using ex_target by (simp_all add: fits_uint32_def)


text \<open>The two handles that the counterexamples below encode and decode.\<close>

lemma ex_links_handle:
  "fh_comp_raw ex_links ex_ufh ''/b'' 0 = Inr ex_links_fh"
  by code_simp

lemma ex_links_scan:
  "fst (fh_decomp_raw ex_links (ex_dir 0) (Some ex_links_fh) ex_globals) = Some ''/a''"
  by code_simp

lemma ex_big_handle:
  "fh_comp_raw ex_odd ex_ufh ''/big'' 0 = Inr ex_big_fh"
  by code_simp

lemma ex_big_scan:
  "fst (fh_decomp_raw ex_odd (ex_dir 0) (Some ex_big_fh) ex_globals) = None"
  by code_simp


end
